theory Spec2Isabelle
  imports Complex_Main "HOL-Library.Multiset"
begin

chapter \<open>The program\<close>

section \<open>Data model\<close>

text \<open>
  The embedding follows three classes of the repository: \<open>PriorityQueue\<close>
  (\<open>PriorityQueue.ts\<close>), \<open>Flight\<close> (\<open>Flight.ts\<close>) and \<open>ZipScheduler\<close>
  (\<open>FlightScheduler.ts\<close>, the later of its two drafts, the one whose planner looks for
  the nearest Emergency order first).

  A TypeScript \<open>number\<close> that holds a position, a distance, a time or a speed is a
  \<open>real\<close>: arithmetic is exact, rounding is not modelled. The values that only a
  division by zero creates (\<open>Infinity\<close>, \<open>-Infinity\<close>, \<open>NaN\<close>) are kept apart in
  \<open>JSNumber\<close>, because a return time is a quotient by the configured speed. Counts
  handed to the constructor (\<open>numZips\<close>, \<open>maxPackagesPerZip\<close>) are natural numbers;
  array indices that can be \<open>-1\<close> are integers.

  A method that changes its object takes the object and returns the changed one. The
  field \<open>id\<close> of an order, which the scheduler and the queue read, is \<open>orderId\<close> here.
\<close>

datatype Priority = Emergency | Resupply

record Point =
  northM :: real
  eastM :: real

record Hospital = Point +
  name :: string

record Order =
  orderId :: string
  hospital :: Hospital
  priority :: Priority
  time :: real

datatype JSNumber = Finite real | PosInfinity | NegInfinity | NaN

text \<open>\<open>a / b\<close> for finite \<open>a\<close> and \<open>b\<close>.\<close>

definition jsDivide :: "real \<Rightarrow> real \<Rightarrow> JSNumber" where
  "jsDivide a b =
     (if b \<noteq> 0 then Finite (a / b)
      else if a > 0 then PosInfinity
      else if a < 0 then NegInfinity
      else NaN)"

text \<open>\<open>a + q\<close> for a finite \<open>a\<close>.\<close>

fun jsAdd :: "real \<Rightarrow> JSNumber \<Rightarrow> JSNumber" where
  "jsAdd a (Finite q) = Finite (a + q)"
| "jsAdd a PosInfinity = PosInfinity"
| "jsAdd a NegInfinity = NegInfinity"
| "jsAdd a NaN = NaN"

text \<open>\<open>x <= t\<close> for a finite \<open>t\<close>: every comparison with \<open>NaN\<close> is false.\<close>

fun jsLessEq :: "JSNumber \<Rightarrow> real \<Rightarrow> bool" where
  "jsLessEq (Finite r) t = (r \<le> t)"
| "jsLessEq PosInfinity t = False"
| "jsLessEq NegInfinity t = True"
| "jsLessEq NaN t = False"

section \<open>Arrays\<close>

text \<open>
  \<open>Array.prototype.findIndex\<close> and \<open>indexOf\<close> return \<open>-1\<close> when nothing matches.
  \<open>indexOf\<close> compares objects by reference. Orders are never mutated, and the planner
  only asks for the index of the first element of a filtered copy that attains the
  minimum, so the first structurally equal element is the object itself.
\<close>

fun findIndex :: "('a \<Rightarrow> bool) \<Rightarrow> 'a list \<Rightarrow> int" where
  "findIndex P [] = - 1"
| "findIndex P (x # xs) =
     (if P x then 0 else (let i = findIndex P xs in if i = - 1 then - 1 else i + 1))"

definition indexOf :: "'a list \<Rightarrow> 'a \<Rightarrow> int" where
  "indexOf xs x = findIndex (\<lambda>y. y = x) xs"

text \<open>
  \<open>xs.splice(start, 1)\<close>: a negative start counts from the end, a start beyond the
  end removes nothing.
\<close>

definition splice1 :: "'a list \<Rightarrow> int \<Rightarrow> 'a list" where
  "splice1 xs start =
     (let n = int (length xs);
          k = (if start < 0 then max (n + start) 0 else min start n)
      in take (nat k) xs @ drop (nat k + 1) xs)"

lemma findIndex_bounds: "findIndex P xs = - 1 \<or> (0 \<le> findIndex P xs \<and> findIndex P xs < int (length xs))"
  by (induction xs) (auto simp: Let_def)

lemma findIndex_none: "findIndex P xs = - 1 \<longleftrightarrow> (\<forall>x \<in> set xs. \<not> P x)"
proof (induction xs)
  case Nil
  then show ?case by simp
next
  case (Cons a xs)
  then show ?case using findIndex_bounds [of P xs] by (auto simp: Let_def)
qed

lemma findIndex_found: "findIndex P xs \<noteq> - 1 \<Longrightarrow> P (xs ! nat (findIndex P xs))"
proof (induction xs)
  case Nil
  then show ?case by simp
next
  case (Cons a xs)
  then show ?case using findIndex_bounds [of P xs]
    by (auto simp: Let_def nat_add_distrib split: if_splits)
qed

section \<open>PriorityQueue\<close>

record PriorityQueueElement =
  order :: Order

text \<open>The class has the one field \<open>heap\<close>; a queue is that array.\<close>

type_synonym PriorityQueue = "PriorityQueueElement list"

definition compare :: "Order \<Rightarrow> Order \<Rightarrow> real" where
  "compare a b =
     (let priorityOrder = [Emergency, Resupply];
          priorityDiff = indexOf priorityOrder (priority a) - indexOf priorityOrder (priority b)
      in if priorityDiff \<noteq> 0 then real_of_int priorityDiff else time a - time b)"

definition swap :: "PriorityQueue \<Rightarrow> nat \<Rightarrow> nat \<Rightarrow> PriorityQueue" where
  "swap h i j = (let temp = h ! i in (h[i := h ! j])[j := temp])"

text \<open>
  \<open>bubbleUp\<close> and \<open>bubbleDown\<close> are private; every caller passes an index below the
  length of the heap, and the loops only move to indices that are in range as well.
\<close>

function bubbleUp :: "PriorityQueue \<Rightarrow> nat \<Rightarrow> PriorityQueue" where
  "bubbleUp h index =
     (if index > 0 then
        (let parentIndex = (index - 1) div 2 in
         if compare (order (h ! index)) (order (h ! parentIndex)) < 0
         then bubbleUp (swap h index parentIndex) parentIndex
         else h)
      else h)"
  by pat_completeness auto

termination
  by (relation "measure (\<lambda>(h, index). index)") auto

text \<open>
  The body of the loop of \<open>bubbleDown\<close> up to its \<open>if (smallest !== index)\<close>: the
  index that \<open>smallest\<close> holds after the two comparisons with the children.
\<close>

definition smallestChild :: "PriorityQueue \<Rightarrow> nat \<Rightarrow> nat" where
  "smallestChild h index =
     (let len = length h;
          smallest = index;
          left = 2 * index + 1;
          right = 2 * index + 2;
          smallest = (if left < len \<and> compare (order (h ! left)) (order (h ! smallest)) < 0
                      then left else smallest);
          smallest = (if right < len \<and> compare (order (h ! right)) (order (h ! smallest)) < 0
                      then right else smallest)
      in smallest)"

lemma smallestChild_cases:
  "smallestChild h i = i \<or>
   (smallestChild h i = 2 * i + 1 \<and> 2 * i + 1 < length h) \<or>
   (smallestChild h i = 2 * i + 2 \<and> 2 * i + 2 < length h)"
  by (simp add: smallestChild_def Let_def)

lemma length_swap: "length (swap h i j) = length h"
  by (simp add: swap_def Let_def)

function bubbleDown :: "PriorityQueue \<Rightarrow> nat \<Rightarrow> PriorityQueue" where
  "bubbleDown h index =
     (let smallest = smallestChild h index in
      if smallest \<noteq> index then bubbleDown (swap h index smallest) smallest else h)"
  by pat_completeness auto

termination
proof (relation "measure (\<lambda>(h, index). length h - index)")
  show "wf (measure (\<lambda>(h, index). length h - index))" by simp
next
  fix h :: PriorityQueue and index x
  assume "x = smallestChild h index" and "x \<noteq> index"
  then show "((swap h index x, x), (h, index)) \<in> measure (\<lambda>(h, index). length h - index)"
    using smallestChild_cases [of h index] by (auto simp: length_swap)
qed

definition enqueue :: "PriorityQueue \<Rightarrow> Order \<Rightarrow> PriorityQueue" where
  "enqueue h ord = (let h1 = h @ [\<lparr>order = ord\<rparr>] in bubbleUp h1 (length h1 - 1))"

text \<open>
  \<open>this.heap[0] = this.heap.pop()\<close>: the slot is chosen, the last element is popped
  and then stored in the shortened array.
\<close>

definition dequeue :: "PriorityQueue \<Rightarrow> Order option \<times> PriorityQueue" where
  "dequeue h =
     (if length h = 0 then (None, h)
      else if length h = 1 then (Some (order (last h)), butlast h)
      else (let top = order (h ! 0);
                h1 = (butlast h)[0 := last h]
            in (Some top, bubbleDown h1 0)))"

definition dequeueById :: "PriorityQueue \<Rightarrow> string \<Rightarrow> Order option \<times> PriorityQueue" where
  "dequeueById h ident =
     (let index = findIndex (\<lambda>element. orderId (order element) = ident) h in
      if index = - 1 then (None, h)
      else (let ord = order (h ! nat index) in
            if index \<noteq> int (length h) - 1
            then (let h1 = (butlast h)[nat index := last h];
                      h2 = bubbleDown h1 (nat index);
                      h3 = bubbleUp h2 (nat index)
                  in (Some ord, h3))
            else (Some ord, butlast h)))"

definition peek :: "PriorityQueue \<Rightarrow> Order option" where
  "peek h = (if length h > 0 then Some (order (h ! 0)) else None)"

definition isEmpty :: "PriorityQueue \<Rightarrow> bool" where
  "isEmpty h = (length h = 0)"

definition size_queue :: "PriorityQueue \<Rightarrow> nat" where
  "size_queue h = length h"

definition toArray :: "PriorityQueue \<Rightarrow> Order list" where
  "toArray h = map order h"

declare bubbleUp.simps [simp del] bubbleDown.simps [simp del]

section \<open>Flight\<close>

text \<open>The constant of \<open>Flight.ts\<close>, not the scheduler's configured range.\<close>

definition ZIP_MAX_CUMULATIVE_RANGE_M :: real where
  "ZIP_MAX_CUMULATIVE_RANGE_M = 160 * 1000"

record Flight =
  launchTime :: real
  totalDistance :: real
  orders :: "Order list"
  estimatedReturnBatteryPercentage :: real
  flightPath :: string

fun priorityString :: "Priority \<Rightarrow> string" where
  "priorityString Emergency = ''Emergency''"
| "priorityString Resupply = ''Resupply''"

text \<open>\<open>Array.prototype.join\<close>.\<close>

fun join :: "string \<Rightarrow> string list \<Rightarrow> string" where
  "join sep [] = []"
| "join sep [x] = x"
| "join sep (x # y # ys) = x @ sep @ join sep (y # ys)"

definition getFlightPath :: "Order list \<Rightarrow> string" where
  "getFlightPath os =
     join '' -> '' (map (\<lambda>ord. name (hospital ord) @ '' ('' @ priorityString (priority ord) @ '')'') os)
       @ '' -> Nest''"

text \<open>The constructor of \<open>Flight\<close>.\<close>

definition newFlight :: "real \<Rightarrow> Order list \<Rightarrow> real \<Rightarrow> Flight" where
  "newFlight launchTime' orders' totalDistance' =
     \<lparr>launchTime = launchTime',
      totalDistance = totalDistance',
      orders = orders',
      estimatedReturnBatteryPercentage = 100 - (totalDistance' / ZIP_MAX_CUMULATIVE_RANGE_M) * 100,
      flightPath = getFlightPath orders'\<rparr>"

section \<open>ZipScheduler\<close>

record ActiveFlight =
  returnTime :: JSNumber
  flight :: Flight

text \<open>
  The calls to the imported logger, one constructor for each call site of the class,
  with the values its message interpolates.
\<close>

datatype LogLevel = LogError | LogInfo | LogVerbose

datatype LogEntry =
    OrderExceedsMaximumRange string real real
  | OrderQueued string Priority nat nat nat int
  | FlightCompleted
  | SkippingEmergencyFlight int
  | SkippingResupplyFlight int nat
  | FailedToDequeueOrder string
  | OrderDequeued string
  | OrderCannotBeFulfilled string real real

fun logLevel :: "LogEntry \<Rightarrow> LogLevel" where
  "logLevel (OrderExceedsMaximumRange i d r) = LogError"
| "logLevel (OrderQueued n p u e r a) = LogInfo"
| "logLevel FlightCompleted = LogInfo"
| "logLevel (SkippingEmergencyFlight a) = LogError"
| "logLevel (SkippingResupplyFlight a r) = LogVerbose"
| "logLevel (FailedToDequeueOrder i) = LogError"
| "logLevel (OrderDequeued i) = LogVerbose"
| "logLevel (OrderCannotBeFulfilled i d r) = LogVerbose"

text \<open>
  The fields of the class, and \<open>logged\<close>: what the methods have handed to the logger,
  oldest first. The logger is an object of its own module; it is kept beside the
  fields so that every method is a function from scheduler to scheduler.
\<close>

record ZipScheduler =
  hospitals :: "string \<rightharpoonup> Hospital"
  numZips :: nat
  maxPackagesPerZip :: nat
  zipSpeedMps :: real
  zipMaxCumulativeRangeM :: real
  completeOrderCount :: nat
  unfulfilledOrders :: PriorityQueue
  activeFlights :: "ActiveFlight list"
  logged :: "LogEntry list"

definition RESERVED_EMERGENCY_ZIPS :: int where
  "RESERVED_EMERGENCY_ZIPS = 4"

text \<open>The constructor of \<open>ZipScheduler\<close>.\<close>

definition newZipScheduler ::
  "(string \<rightharpoonup> Hospital) \<Rightarrow> nat \<Rightarrow> nat \<Rightarrow> real \<Rightarrow> real \<Rightarrow> ZipScheduler" where
  "newZipScheduler hospitals' numZips' maxPackagesPerZip' zipSpeedMps' zipMaxCumulativeRangeM' =
     \<lparr>hospitals = hospitals',
      numZips = numZips',
      maxPackagesPerZip = maxPackagesPerZip',
      zipSpeedMps = zipSpeedMps',
      zipMaxCumulativeRangeM = zipMaxCumulativeRangeM',
      completeOrderCount = 0,
      unfulfilledOrders = [],
      activeFlights = [],
      logged = []\<rparr>"

definition unfulfilledOrdersCount :: "ZipScheduler \<Rightarrow> nat" where
  "unfulfilledOrdersCount s = size_queue (unfulfilledOrders s)"

definition getUnfulfilledOrders :: "ZipScheduler \<Rightarrow> Order list" where
  "getUnfulfilledOrders s = toArray (unfulfilledOrders s)"

definition calculateDistance :: "'a Point_scheme \<Rightarrow> 'b Point_scheme \<Rightarrow> real" where
  "calculateDistance pointA pointB =
     (let deltaX = northM pointB - northM pointA;
          deltaY = eastM pointB - eastM pointA
      in sqrt (deltaX ^ 2 + deltaY ^ 2))"

definition countByPriority :: "ZipScheduler \<Rightarrow> Priority \<Rightarrow> nat" where
  "countByPriority s p =
     (let orders' = toArray (unfulfilledOrders s) in length (filter (\<lambda>ord. priority ord = p) orders'))"

definition activeFlightsCount :: "ZipScheduler \<Rightarrow> nat" where
  "activeFlightsCount s = length (activeFlights s)"

definition queueOrder :: "ZipScheduler \<Rightarrow> Order \<Rightarrow> ZipScheduler" where
  "queueOrder s ord =
     (let distance = 2 * calculateDistance \<lparr>northM = 0, eastM = 0\<rparr> (hospital ord) in
      if distance > zipMaxCumulativeRangeM s
      then s\<lparr>logged := logged s @
             [OrderExceedsMaximumRange (orderId ord) distance (zipMaxCumulativeRangeM s)]\<rparr>
      else (let s1 = s\<lparr>unfulfilledOrders := enqueue (unfulfilledOrders s) ord\<rparr>
            in s1\<lparr>logged := logged s1 @
                 [OrderQueued (name (hospital ord)) (priority ord) (unfulfilledOrdersCount s1)
                    (countByPriority s1 Emergency) (countByPriority s1 Resupply)
                    (int (numZips s1) - int (length (activeFlights s1)))]\<rparr>))"

text \<open>
  The callback of \<open>filter\<close> counts and logs each returned flight as it drops it; the
  filtered array replaces \<open>activeFlights\<close> when the pass is over.
\<close>

definition releaseReturningZips :: "ZipScheduler \<Rightarrow> real \<Rightarrow> ZipScheduler" where
  "releaseReturningZips s currentTime =
     (let (s1, kept) =
        foldl (\<lambda>(s', kept') flightEntry.
                 if jsLessEq (returnTime flightEntry) currentTime
                 then (s'\<lparr>completeOrderCount :=
                            completeOrderCount s' + length (orders (flight flightEntry)),
                          logged := logged s' @ [FlightCompleted]\<rparr>, kept')
                 else (s', kept' @ [flightEntry]))
          (s, []) (activeFlights s)
      in s1\<lparr>activeFlights := kept\<rparr>)"

definition calculateReturnTime :: "ZipScheduler \<Rightarrow> real \<Rightarrow> real \<Rightarrow> JSNumber" where
  "calculateReturnTime s launchTime' totalDistance' =
     jsAdd launchTime' (jsDivide totalDistance' (zipSpeedMps s))"

subsection \<open>planFlight\<close>

text \<open>
  \<open>findNearestOrder\<close> is the closure inside the planning loop; it reads the loop's
  \<open>currentLocation\<close> and \<open>availableOrders\<close>. Its three variables change together, so
  they are one optional triple: \<open>None\<close> is \<open>nearest = null\<close>,
  \<open>minDistance = Infinity\<close>, \<open>index = -1\<close>, and every finite distance is below
  \<open>Infinity\<close>.
\<close>

definition findNearestOrder ::
  "Point \<Rightarrow> Order list \<Rightarrow> Order list \<Rightarrow> (Order \<times> int \<times> real) option" where
  "findNearestOrder currentLocation availableOrders orders' =
     foldl (\<lambda>acc ord.
              (let distance = calculateDistance currentLocation (hospital ord) in
               if (case acc of None \<Rightarrow> True | Some (nearest, index, minDistance) \<Rightarrow> distance < minDistance)
               then Some (ord, indexOf availableOrders ord, distance)
               else acc))
       None orders'"

text \<open>
  The choice of \<open>selectedOrder\<close>, \<open>selectedOrderIndex\<close> and \<open>nearestDistance\<close> in one
  pass of the loop: the nearest Emergency order if there is one, else the nearest of
  the others. \<open>None\<close> is the initial \<open>null\<close>, \<open>-1\<close>, \<open>Infinity\<close>.
\<close>

definition selectOrder :: "Point \<Rightarrow> Order list \<Rightarrow> (Order \<times> int \<times> real) option" where
  "selectOrder currentLocation availableOrders =
     (let emergencyOrders = filter (\<lambda>ord. priority ord = Emergency) availableOrders;
          nonEmergencyOrders = filter (\<lambda>ord. priority ord \<noteq> Emergency) availableOrders;
          nearestEmergency = findNearestOrder currentLocation availableOrders emergencyOrders
      in case nearestEmergency of
           Some r \<Rightarrow> Some r
         | None \<Rightarrow> findNearestOrder currentLocation availableOrders nonEmergencyOrders)"

text \<open>
  The loop of \<open>planFlight\<close> ends because every pass that does not break splices one
  order out of \<open>availableOrders\<close>: the index it splices at is the \<open>indexOf\<close> of an
  order that the array holds.
\<close>

lemma findNearestOrder_index_aux:
  "foldl (\<lambda>acc ord.
              (let distance = calculateDistance cur (hospital ord) in
               if (case acc of None \<Rightarrow> True | Some (nearest, index, minDistance) \<Rightarrow> distance < minDistance)
               then Some (ord, indexOf avail ord, distance)
               else acc)) a os = Some (x, i, d) \<Longrightarrow>
   (a = Some (x, i, d) \<or> (x \<in> set os \<and> i = indexOf avail x \<and> d = calculateDistance cur (hospital x)))"
proof (induction os arbitrary: a)
  case Nil
  then show ?case by simp
next
  case (Cons y os)
  show ?case using Cons.IH [OF Cons.prems [simplified]]
    by (auto simp: Let_def split: if_splits)
qed

lemma findNearestOrder_Some:
  "findNearestOrder cur avail os = Some (x, i, d) \<Longrightarrow>
   x \<in> set os \<and> i = indexOf avail x \<and> d = calculateDistance cur (hospital x)"
  unfolding findNearestOrder_def using findNearestOrder_index_aux [of cur avail None os x i d] by simp

lemma selectOrder_Some:
  assumes "selectOrder cur avail = Some (x, i, d)"
  shows "x \<in> set avail" and "i = indexOf avail x" and "d = calculateDistance cur (hospital x)"
proof -
  obtain os where os: "findNearestOrder cur avail os = Some (x, i, d)" "set os \<subseteq> set avail"
    using assms by (auto simp: selectOrder_def Let_def split: option.splits)
  show "x \<in> set avail" and "i = indexOf avail x" and "d = calculateDistance cur (hospital x)"
    using findNearestOrder_Some [OF os(1)] os(2) by auto
qed

lemma indexOf_bounds: "x \<in> set xs \<Longrightarrow> 0 \<le> indexOf xs x \<and> indexOf xs x < int (length xs)"
  using findIndex_bounds [of "\<lambda>y. y = x" xs] findIndex_none [of "\<lambda>y. y = x" xs]
  by (auto simp: indexOf_def)

lemma length_splice1: "0 \<le> i \<Longrightarrow> i < int (length xs) \<Longrightarrow> length (splice1 xs i) = length xs - 1"
  by (auto simp: splice1_def Let_def min_def)

lemma selectOrder_splice:
  "selectOrder cur avail = Some (x, i, d) \<Longrightarrow> length (splice1 avail i) < length avail"
  using selectOrder_Some [of cur avail x i d] indexOf_bounds [of x avail] length_splice1 [of i avail]
  by (cases avail) auto

text \<open>
  The loop of \<open>planFlight\<close>. It returns its variables when it ends: the stops, the
  distance so far, the current location, and what it has logged.
\<close>

function planLoop ::
  "ZipScheduler \<Rightarrow> Order list \<Rightarrow> real \<Rightarrow> Point \<Rightarrow> Order list \<Rightarrow> LogEntry list \<Rightarrow>
   Order list \<times> real \<times> Point \<times> LogEntry list" where
  "planLoop s flightOrders totalDistance' currentLocation availableOrders lg =
     (if length flightOrders < maxPackagesPerZip s \<and> length availableOrders > 0 then
        (case selectOrder currentLocation availableOrders of
           None \<Rightarrow> (flightOrders, totalDistance', currentLocation, lg)
         | Some (selectedOrder, selectedOrderIndex, nearestDistance) \<Rightarrow>
             if selectedOrderIndex = - 1 then (flightOrders, totalDistance', currentLocation, lg)
             else
               (let distanceToOrder = nearestDistance;
                    distanceBackToNest =
                      calculateDistance (hospital selectedOrder) \<lparr>northM = 0, eastM = 0\<rparr>;
                    newTotalDistance = totalDistance' + distanceToOrder + distanceBackToNest
                in if newTotalDistance \<le> zipMaxCumulativeRangeM s
                   then planLoop s (flightOrders @ [selectedOrder]) (totalDistance' + distanceToOrder)
                          (Point.truncate (hospital selectedOrder))
                          (splice1 availableOrders selectedOrderIndex) lg
                   else planLoop s flightOrders totalDistance' currentLocation
                          (splice1 availableOrders selectedOrderIndex)
                          (lg @ [OrderCannotBeFulfilled (orderId selectedOrder) newTotalDistance
                                   (zipMaxCumulativeRangeM s)])))
      else (flightOrders, totalDistance', currentLocation, lg))"
  by pat_completeness auto

termination
  by (relation "measure (\<lambda>(s, fo, td, cur, avail, lg). length avail)")
     (auto dest: selectOrder_splice)

declare planLoop.simps [simp del]

definition planFlight :: "ZipScheduler \<Rightarrow> (Order list \<times> real) \<times> ZipScheduler" where
  "planFlight s =
     (let availableOrders = getUnfulfilledOrders s;
          (flightOrders, totalDistance', currentLocation, lg) =
             planLoop s [] 0 \<lparr>northM = 0, eastM = 0\<rparr> availableOrders [];
          totalDistance' =
            (if length flightOrders > 0
             then totalDistance' + calculateDistance currentLocation \<lparr>northM = 0, eastM = 0\<rparr>
             else totalDistance')
      in ((flightOrders, totalDistance'), s\<lparr>logged := logged s @ lg\<rparr>))"

subsection \<open>launchFlights\<close>

text \<open>The callback of \<open>flightOrders.forEach\<close>.\<close>

definition dequeueFlightOrder :: "ZipScheduler \<Rightarrow> Order \<Rightarrow> ZipScheduler" where
  "dequeueFlightOrder s ord =
     (let (removed, q) = dequeueById (unfulfilledOrders s) (orderId ord);
          s1 = s\<lparr>unfulfilledOrders := q\<rparr>
      in case removed of
           None \<Rightarrow> s1\<lparr>logged := logged s1 @ [FailedToDequeueOrder (orderId ord)]\<rparr>
         | Some r \<Rightarrow> s1\<lparr>logged := logged s1 @ [OrderDequeued (orderId ord)]\<rparr>)"

text \<open>
  The end of one pass of the dispatch loop, once both checks have let the plan through:
  the orders are taken out of the queue, the flight is built and put among the active
  flights.
\<close>

definition dispatchFlight ::
  "ZipScheduler \<Rightarrow> real \<Rightarrow> Order list \<Rightarrow> real \<Rightarrow> Flight \<times> ZipScheduler" where
  "dispatchFlight s currentTime flightOrders totalDistance' =
     (let s1 = foldl dequeueFlightOrder s flightOrders;
          flight' = newFlight currentTime flightOrders totalDistance';
          returnTime' = calculateReturnTime s1 currentTime totalDistance'
      in (flight', s1\<lparr>activeFlights := activeFlights s1 @
                        [\<lparr>returnTime = returnTime', flight = flight'\<rparr>]\<rparr>))"

text \<open>
  The loop of \<open>launchFlights\<close>, with its local variables \<open>availableZips\<close> and \<open>flights\<close>.
  The constant \<open>orders\<close> that each pass reads from the queue is not used afterwards
  and is left out.
\<close>

function launchLoop ::
  "real \<Rightarrow> int \<Rightarrow> Flight list \<Rightarrow> ZipScheduler \<Rightarrow> Flight list \<times> ZipScheduler" where
  "launchLoop currentTime availableZips flights s =
     (if availableZips > 0 \<and> \<not> isEmpty (unfulfilledOrders s) then
        (let resupplyCount = countByPriority s Resupply;
             emergencyCount = countByPriority s Emergency;
             ((flightOrders, totalDistance'), s1) = planFlight s
         in if length flightOrders = 0 then (flights, s1)
            else if emergencyCount \<noteq> 0 \<and> availableZips < 1
            then (flights, s1\<lparr>logged := logged s1 @
                    [SkippingEmergencyFlight (int (numZips s1) - int (length (activeFlights s1)))]\<rparr>)
            else if emergencyCount = 0 \<and> availableZips < RESERVED_EMERGENCY_ZIPS
            then (flights, s1\<lparr>logged := logged s1 @
                    [SkippingResupplyFlight availableZips resupplyCount]\<rparr>)
            else (let (flight', s2) = dispatchFlight s1 currentTime flightOrders totalDistance'
                  in launchLoop currentTime (availableZips - 1) (flights @ [flight']) s2))
      else (flights, s))"
  by pat_completeness auto

termination
  by (relation "measure (\<lambda>(t, availableZips, flights, s). nat availableZips)") auto

declare launchLoop.simps [simp del]

definition launchFlights :: "ZipScheduler \<Rightarrow> real \<Rightarrow> Flight list \<times> ZipScheduler" where
  "launchFlights s currentTime =
     (let s1 = releaseReturningZips s currentTime;
          flights = [];
          availableZips = int (numZips s1) - int (length (activeFlights s1))
      in if isEmpty (unfulfilledOrders s1) then (flights, s1)
         else launchLoop currentTime availableZips flights s1)"

chapter \<open>Properties\<close>

section \<open>The heap\<close>

subsection \<open>The order of the comparator\<close>

definition inOrder :: "PriorityQueueElement \<Rightarrow> PriorityQueueElement \<Rightarrow> bool" where
  "inOrder a b = (\<not> compare (order b) (order a) < 0)"

lemma compare_less_iff:
  "compare a b < 0 \<longleftrightarrow>
     (priority a = Emergency \<and> priority b = Resupply) \<or> (priority a = priority b \<and> time a < time b)"
  by (cases "priority a"; cases "priority b"; simp add: compare_def indexOf_def)

lemma inOrder_iff:
  "inOrder a b \<longleftrightarrow>
     (priority (order a) = Emergency \<and> priority (order b) = Resupply) \<or>
     (priority (order a) = priority (order b) \<and> time (order a) \<le> time (order b))"
  by (cases "priority (order a)"; cases "priority (order b)"; auto simp: inOrder_def compare_less_iff)

lemma inOrder_refl: "inOrder a a"
  by (simp add: inOrder_iff)

lemma inOrder_trans: "inOrder a b \<Longrightarrow> inOrder b c \<Longrightarrow> inOrder a c"
  by (cases "priority (order a)"; cases "priority (order b)"; cases "priority (order c)"; auto simp: inOrder_iff)

lemma less_inOrder: "compare (order a) (order b) < 0 \<Longrightarrow> inOrder a b"
  by (auto simp: inOrder_def compare_less_iff)

lemma not_less_inOrder: "\<not> compare (order a) (order b) < 0 \<Longrightarrow> inOrder b a"
  by (simp add: inOrder_def)

lemma compare_less_trans:
  "compare a b < 0 \<Longrightarrow> compare b c < 0 \<Longrightarrow> compare a c < 0"
  by (cases "priority a"; cases "priority b"; cases "priority c"; auto simp: compare_less_iff)

lemma compare_less_not_less:
  "compare a b < 0 \<Longrightarrow> \<not> compare c b < 0 \<Longrightarrow> \<not> compare c a < 0"
  by (cases "priority a"; cases "priority b"; cases "priority c"; auto simp: compare_less_iff)

lemma compare_irrefl: "\<not> compare a a < 0"
  by (simp add: compare_less_iff)

lemma compare_asym: "compare a b < 0 \<Longrightarrow> compare b a < 0 \<Longrightarrow> False"
  by (auto simp: compare_less_iff)

definition dequeuedInOrder :: "Order \<Rightarrow> Order \<Rightarrow> bool" where
  "dequeuedInOrder a b =
     ((priority b = Emergency \<longrightarrow> priority a = Emergency) \<and>
      (priority a = priority b \<longrightarrow> time a \<le> time b))"

lemma inOrder_dequeuedInOrder: "inOrder a b \<longleftrightarrow> dequeuedInOrder (order a) (order b)"
  by (cases "priority (order a)"; cases "priority (order b)"; auto simp: inOrder_iff dequeuedInOrder_def)

subsection \<open>The heap invariant\<close>

text \<open>
  The parent of index \<open>i\<close> is \<open>floor((i - 1) / 2)\<close>. A queue is heap-ordered when no element
  compares below its parent. \<open>upInv h k\<close> and \<open>downInv h k\<close> are what holds while
  \<open>bubbleUp\<close> and \<open>bubbleDown\<close> are at index \<open>k\<close>: the heap order everywhere but between
  \<open>k\<close> and its parent, or between \<open>k\<close> and its children, and the children of \<open>k\<close> not
  below the parent of \<open>k\<close>.
\<close>

definition parentOf :: "nat \<Rightarrow> nat" where
  "parentOf i = (i - 1) div 2"

lemma parentOf_less: "0 < i \<Longrightarrow> parentOf i < i"
  by (simp add: parentOf_def)

lemma parentOf_children: "parentOf (2 * k + 1) = k" "parentOf (2 * k + 2) = k"
  by (simp_all add: parentOf_def)

lemma parentOf_eq: "0 < i \<Longrightarrow> parentOf i = k \<longleftrightarrow> i = 2 * k + 1 \<or> i = 2 * k + 2"
  unfolding parentOf_def by arith

definition heapOrdered :: "PriorityQueue \<Rightarrow> bool" where
  "heapOrdered h = (\<forall>i \<in> {1..<length h}. inOrder (h ! parentOf i) (h ! i))"

definition upInv :: "PriorityQueue \<Rightarrow> nat \<Rightarrow> bool" where
  "upInv h k =
     (k < length h \<and>
      (\<forall>i \<in> {1..<length h}. i \<noteq> k \<longrightarrow> inOrder (h ! parentOf i) (h ! i)) \<and>
      (\<forall>i \<in> {1..<length h}. 0 < k \<longrightarrow> parentOf i = k \<longrightarrow> inOrder (h ! parentOf k) (h ! i)))"

definition downInv :: "PriorityQueue \<Rightarrow> nat \<Rightarrow> bool" where
  "downInv h k =
     ((\<forall>i \<in> {1..<length h}. parentOf i \<noteq> k \<longrightarrow> inOrder (h ! parentOf i) (h ! i)) \<and>
      (\<forall>i \<in> {1..<length h}. 0 < k \<longrightarrow> parentOf i = k \<longrightarrow> inOrder (h ! parentOf k) (h ! i)))"

lemma heapOrdered_Nil: "heapOrdered []"
  by (simp add: heapOrdered_def)

lemma nth_swap:
  "i < length h \<Longrightarrow> j < length h \<Longrightarrow>
   swap h i j ! n = (if n = j then h ! i else if n = i then h ! j else h ! n)"
  by (simp add: swap_def Let_def nth_list_update)

lemma mset_swap_queue: "i < length h \<Longrightarrow> j < length h \<Longrightarrow> mset (swap h i j) = mset h"
  by (simp add: swap_def Let_def mset_swap)

subsection \<open>bubbleUp\<close>

lemma bubbleUp_unfold:
  "bubbleUp h k =
     (if 0 < k \<and> compare (order (h ! k)) (order (h ! parentOf k)) < 0
      then bubbleUp (swap h k (parentOf k)) (parentOf k) else h)"
  by (subst bubbleUp.simps) (simp add: Let_def parentOf_def)

lemma upInv_swap:
  assumes inv: "upInv h k" and k: "0 < k"
    and lt: "compare (order (h ! k)) (order (h ! parentOf k)) < 0"
  shows "upInv (swap h k (parentOf k)) (parentOf k)"
proof -
  define p where "p = parentOf k"
  have kl: "k < length h" using inv by (simp add: upInv_def)
  have pk: "p < k" using k by (simp add: p_def parentOf_less)
  have pl: "p < length h" using pk kl by simp
  let ?h = "swap h k p"
  have nth: "\<And>n. ?h ! n = (if n = p then h ! k else if n = k then h ! p else h ! n)"
    using kl pl by (simp add: nth_swap)
  have kp: "inOrder (h ! k) (h ! p)" using lt by (simp add: less_inOrder p_def)
  have A: "\<And>i. 0 < i \<Longrightarrow> i < length h \<Longrightarrow> i \<noteq> k \<Longrightarrow> inOrder (h ! parentOf i) (h ! i)"
    using inv by (simp add: upInv_def)
  have B: "\<And>i. 0 < i \<Longrightarrow> i < length h \<Longrightarrow> parentOf i = k \<Longrightarrow> inOrder (h ! p) (h ! i)"
    using inv k by (simp add: upInv_def p_def)
  have c1: "inOrder (?h ! parentOf i) (?h ! i)"
    if i: "0 < i" "i < length h" "i \<noteq> p" for i
  proof -
    consider "i = k" | "i \<noteq> k" "parentOf i = k" | "i \<noteq> k" "parentOf i = p"
      | "i \<noteq> k" "parentOf i \<noteq> k" "parentOf i \<noteq> p" by blast
    then show ?thesis
    proof cases
      case 1
      then show ?thesis using kp pk by (simp add: nth p_def [symmetric])
    next
      case 2
      then show ?thesis using B [of i] i pk by (simp add: nth)
    next
      case 3
      have "inOrder (h ! p) (h ! i)" using A [of i] i 3 by simp
      then have "inOrder (h ! k) (h ! i)" using kp inOrder_trans by blast
      then show ?thesis using 3 i by (simp add: nth)
    next
      case 4
      then show ?thesis using A [of i] i by (simp add: nth)
    qed
  qed
  have c2: "inOrder (?h ! parentOf p) (?h ! i)"
    if i: "0 < i" "i < length h" "0 < p" "parentOf i = p" for i
  proof -
    have pp: "parentOf p < p" using i(3) by (rule parentOf_less)
    have gp: "inOrder (h ! parentOf p) (h ! p)"
      using A [of p] i(3) pl pk by simp
    have ip: "i \<noteq> p" using parentOf_less [OF i(1)] i(4) by simp
    show ?thesis
    proof (cases "i = k")
      case True
      then show ?thesis using gp pp pk by (simp add: nth)
    next
      case False
      have "inOrder (h ! p) (h ! i)" using A [of i] i False by simp
      then have "inOrder (h ! parentOf p) (h ! i)" using gp inOrder_trans by blast
      then show ?thesis using False ip pp pk by (simp add: nth)
    qed
  qed
  show ?thesis
    unfolding upInv_def p_def [symmetric]
    using pl c1 c2 by (simp add: length_swap)
qed

lemma upInv_done:
  assumes "upInv h k" and "k = 0 \<or> \<not> compare (order (h ! k)) (order (h ! parentOf k)) < 0"
  shows "heapOrdered h"
  unfolding heapOrdered_def
proof
  fix i assume i: "i \<in> {1..<length h}"
  show "inOrder (h ! parentOf i) (h ! i)"
  proof (cases "i = k")
    case True
    then show ?thesis using assms(2) i by (auto simp: inOrder_def)
  next
    case False
    then show ?thesis using assms(1) i by (simp add: upInv_def)
  qed
qed

lemma bubbleUp_heapOrdered: "upInv h k \<Longrightarrow> heapOrdered (bubbleUp h k)"
proof (induction h k rule: bubbleUp.induct)
  case (1 h index)
  show ?case
  proof (cases "0 < index \<and> compare (order (h ! index)) (order (h ! parentOf index)) < 0")
    case True
    then have "upInv (swap h index (parentOf index)) (parentOf index)"
      using upInv_swap "1.prems" by blast
    then have "heapOrdered (bubbleUp (swap h index (parentOf index)) (parentOf index))"
      using "1.IH" True by (simp add: parentOf_def)
    then show ?thesis using True by (subst bubbleUp_unfold) simp
  next
    case False
    then have "bubbleUp h index = h" by (subst bubbleUp_unfold) auto
    moreover have "heapOrdered h" using upInv_done [OF "1.prems"] False by auto
    ultimately show ?thesis by simp
  qed
qed

lemma bubbleUp_mset: "k < length h \<Longrightarrow> mset (bubbleUp h k) = mset h"
proof (induction h k rule: bubbleUp.induct)
  case (1 h index)
  show ?case
  proof (cases "0 < index \<and> compare (order (h ! index)) (order (h ! parentOf index)) < 0")
    case True
    have p: "parentOf index < length h" using True "1.prems" parentOf_less [of index] by simp
    have "mset (bubbleUp (swap h index (parentOf index)) (parentOf index)) = mset (swap h index (parentOf index))"
      using "1.IH" True p by (simp add: parentOf_def length_swap)
    then show ?thesis using True p "1.prems" by (subst bubbleUp_unfold) (simp add: mset_swap_queue)
  next
    case False
    then show ?thesis by (subst bubbleUp_unfold) auto
  qed
qed

lemma bubbleUp_id: "heapOrdered h \<Longrightarrow> k < length h \<Longrightarrow> bubbleUp h k = h"
  by (subst bubbleUp_unfold) (auto simp: heapOrdered_def inOrder_def)

lemma bubbleUp_zero: "bubbleUp h 0 = h"
  by (subst bubbleUp_unfold) simp

lemma length_bubbleUp: "k < length h \<Longrightarrow> length (bubbleUp h k) = length h"
  using size_mset [of "bubbleUp h k"] by (simp add: bubbleUp_mset)

subsection \<open>bubbleDown\<close>

lemma smallestChild_self:
  assumes "smallestChild h k = k" and "0 < i" and "i < length h" and "parentOf i = k"
  shows "inOrder (h ! k) (h ! i)"
proof -
  have "i = 2 * k + 1 \<or> i = 2 * k + 2" using assms(2,4) by (simp add: parentOf_eq)
  then show ?thesis
    using assms(1,3) unfolding smallestChild_def Let_def inOrder_def
    by (auto split: if_splits)
qed

lemma smallestChild_other:
  assumes "smallestChild h k = c" and "c \<noteq> k"
  shows "c < length h" and "parentOf c = k" and "0 < c" and "k < c"
    and "compare (order (h ! c)) (order (h ! k)) < 0"
    and "\<And>i. 0 < i \<Longrightarrow> i < length h \<Longrightarrow> parentOf i = k \<Longrightarrow> inOrder (h ! c) (h ! i)"
proof -
  have c: "(c = 2 * k + 1 \<and> 2 * k + 1 < length h) \<or> (c = 2 * k + 2 \<and> 2 * k + 2 < length h)"
    using smallestChild_cases [of h k] assms by auto
  then show "c < length h" and "parentOf c = k" and "0 < c" and "k < c"
    by (auto simp: parentOf_def)
  show lt: "compare (order (h ! c)) (order (h ! k)) < 0"
    using assms c unfolding smallestChild_def Let_def
    by (auto split: if_splits intro: compare_less_trans)
  fix i assume i: "0 < i" "i < length h" "parentOf i = k"
  then have "i = 2 * k + 1 \<or> i = 2 * k + 2" by (simp add: parentOf_eq)
  then show "inOrder (h ! c) (h ! i)"
    using assms c i(2) lt unfolding smallestChild_def Let_def inOrder_def
    by (auto simp: compare_irrefl split: if_splits dest: compare_less_not_less compare_asym)
qed

lemma bubbleDown_unfold:
  "bubbleDown h k =
     (if smallestChild h k \<noteq> k then bubbleDown (swap h k (smallestChild h k)) (smallestChild h k)
      else h)"
  by (subst bubbleDown.simps) (simp add: Let_def)

lemma downInv_swap:
  assumes inv: "downInv h k" and c: "smallestChild h k = c" and ck: "c \<noteq> k"
  shows "downInv (swap h k c) c"
proof -
  note sc = smallestChild_other [OF c ck]
  have kl: "k < length h" using sc(1,4) by simp
  let ?h = "swap h k c"
  have nth: "\<And>n. ?h ! n = (if n = c then h ! k else if n = k then h ! c else h ! n)"
    using kl sc(1) by (simp add: nth_swap)
  have ck': "inOrder (h ! c) (h ! k)" using sc(5) by (rule less_inOrder)
  have A: "\<And>i. 0 < i \<Longrightarrow> i < length h \<Longrightarrow> parentOf i \<noteq> k \<Longrightarrow> inOrder (h ! parentOf i) (h ! i)"
    using inv by (simp add: downInv_def)
  have B: "\<And>i. 0 < i \<Longrightarrow> i < length h \<Longrightarrow> 0 < k \<Longrightarrow> parentOf i = k \<Longrightarrow> inOrder (h ! parentOf k) (h ! i)"
    using inv by (simp add: downInv_def)
  have c1: "inOrder (?h ! parentOf i) (?h ! i)"
    if i: "0 < i" "i < length h" "parentOf i \<noteq> c" for i
  proof -
    have pi: "parentOf i < i" using i(1) by (rule parentOf_less)
    consider "i = c" | "i \<noteq> c" "parentOf i = k" | "i = k" | "i \<noteq> c" "i \<noteq> k" "parentOf i \<noteq> k"
      by blast
    then show ?thesis
    proof cases
      case 1
      then show ?thesis using ck' sc(2,4) by (simp add: nth)
    next
      case 2
      then have "inOrder (h ! c) (h ! i)" using sc(6) i by simp
      then show ?thesis using 2 i pi sc(4) by (simp add: nth)
    next
      case 3
      then have "0 < k" using i by simp
      then have "inOrder (h ! parentOf k) (h ! c)" using B [of c] sc by simp
      then show ?thesis using 3 i pi sc(4) by (simp add: nth)
    next
      case 4
      then show ?thesis using A [of i] i by (simp add: nth)
    qed
  qed
  have c2: "inOrder (?h ! parentOf c) (?h ! i)"
    if i: "0 < i" "i < length h" "parentOf i = c" for i
  proof -
    have pi: "parentOf i < i" using i(1) by (rule parentOf_less)
    have "inOrder (h ! c) (h ! i)" using A [of i] i ck by simp
    then show ?thesis using i pi sc(2,4) by (simp add: nth)
  qed
  show ?thesis
    unfolding downInv_def using c1 c2 by (simp add: length_swap)
qed

lemma downInv_done:
  assumes "downInv h k" and "smallestChild h k = k"
  shows "heapOrdered h"
  unfolding heapOrdered_def
proof
  fix i assume i: "i \<in> {1..<length h}"
  show "inOrder (h ! parentOf i) (h ! i)"
  proof (cases "parentOf i = k")
    case True
    then show ?thesis using smallestChild_self [OF assms(2), of i] i by simp
  next
    case False
    then show ?thesis using assms(1) i by (simp add: downInv_def)
  qed
qed

lemma bubbleDown_heapOrdered: "downInv h k \<Longrightarrow> heapOrdered (bubbleDown h k)"
proof (induction h k rule: bubbleDown.induct)
  case (1 h index)
  show ?case
  proof (cases "smallestChild h index = index")
    case True
    then show ?thesis using downInv_done [OF "1.prems"] by (subst bubbleDown_unfold) simp
  next
    case False
    then have "downInv (swap h index (smallestChild h index)) (smallestChild h index)"
      using downInv_swap "1.prems" by blast
    then have "heapOrdered (bubbleDown (swap h index (smallestChild h index)) (smallestChild h index))"
      using "1.IH" False by simp
    then show ?thesis using False by (subst bubbleDown_unfold) simp
  qed
qed

lemma bubbleDown_mset: "mset (bubbleDown h k) = mset h"
proof (induction h k rule: bubbleDown.induct)
  case (1 h index)
  show ?case
  proof (cases "smallestChild h index = index")
    case True
    then show ?thesis by (subst bubbleDown_unfold) simp
  next
    case False
    note sc = smallestChild_other [OF refl False]
    have "mset (bubbleDown (swap h index (smallestChild h index)) (smallestChild h index)) =
          mset (swap h index (smallestChild h index))"
      using "1.IH" False by simp
    then show ?thesis using False sc(1,4) by (subst bubbleDown_unfold) (simp add: mset_swap_queue)
  qed
qed

lemma bubbleDown_id:
  "(\<And>i. 0 < i \<Longrightarrow> i < length h \<Longrightarrow> parentOf i = k \<Longrightarrow> inOrder (h ! k) (h ! i)) \<Longrightarrow>
   bubbleDown h k = h"
proof -
  assume a: "\<And>i. 0 < i \<Longrightarrow> i < length h \<Longrightarrow> parentOf i = k \<Longrightarrow> inOrder (h ! k) (h ! i)"
  have "smallestChild h k = k"
  proof (rule ccontr)
    assume n: "smallestChild h k \<noteq> k"
    note sc = smallestChild_other [OF refl n]
    have "inOrder (h ! k) (h ! smallestChild h k)" using a sc(1,2,3) by simp
    then show False using sc(5) by (simp add: inOrder_def)
  qed
  then show ?thesis by (subst bubbleDown_unfold) simp
qed

lemma bubbleDown_single: "bubbleDown [e] 0 = [e]"
  by (subst bubbleDown_unfold) (simp add: smallestChild_def)

lemma length_bubbleDown: "length (bubbleDown h k) = length h"
  using size_mset [of "bubbleDown h k"] by (simp add: bubbleDown_mset)

subsection \<open>enqueue and dequeue\<close>

lemma enqueue_heapOrdered:
  assumes "heapOrdered h" shows "heapOrdered (enqueue h ord)"
proof -
  have "upInv (h @ [\<lparr>order = ord\<rparr>]) (length h)"
    unfolding upInv_def
  proof (intro conjI ballI impI)
    show "length h < length (h @ [\<lparr>order = ord\<rparr>])" by simp
  next
    fix i assume i: "i \<in> {1..<length (h @ [\<lparr>order = ord\<rparr>])}" and n: "i \<noteq> length h"
    then have il: "i < length h" by simp
    then have "parentOf i < length h" using parentOf_less [of i] i by simp
    then show "inOrder ((h @ [\<lparr>order = ord\<rparr>]) ! parentOf i) ((h @ [\<lparr>order = ord\<rparr>]) ! i)"
      using assms i il by (simp add: heapOrdered_def nth_append)
  next
    fix i assume i: "i \<in> {1..<length (h @ [\<lparr>order = ord\<rparr>])}" and p: "parentOf i = length h"
    have "parentOf i < i" using i by (simp add: parentOf_less)
    then have False using i p by simp
    then show "inOrder ((h @ [\<lparr>order = ord\<rparr>]) ! parentOf (length h)) ((h @ [\<lparr>order = ord\<rparr>]) ! i)" ..
  qed
  then show ?thesis by (simp add: enqueue_def Let_def bubbleUp_heapOrdered)
qed

lemma enqueue_mset: "mset (enqueue h ord) = add_mset \<lparr>order = ord\<rparr> (mset h)"
  by (simp add: enqueue_def Let_def bubbleUp_mset)

lemma toArray_enqueue: "mset (toArray (enqueue h ord)) = add_mset ord (mset (toArray h))"
proof -
  have "mset (toArray (enqueue h ord)) = image_mset order (mset (enqueue h ord))"
    by (simp add: toArray_def)
  then show ?thesis by (simp add: enqueue_mset toArray_def)
qed

lemma toArray_Nil: "toArray [] = []"
  by (simp add: toArray_def)

lemma enqueue_Nil: "enqueue [] ord = [\<lparr>order = ord\<rparr>]"
  by (simp add: enqueue_def Let_def bubbleUp_unfold)

lemma enqueue_second:
  "enqueue [\<lparr>order = o1\<rparr>] o2 =
     (if compare o2 o1 < 0 then [\<lparr>order = o2\<rparr>, \<lparr>order = o1\<rparr>] else [\<lparr>order = o1\<rparr>, \<lparr>order = o2\<rparr>])"
  by (simp add: enqueue_def Let_def bubbleUp_unfold parentOf_def swap_def)

lemma foldl_enqueue_heapOrdered: "heapOrdered h \<Longrightarrow> heapOrdered (foldl enqueue h os)"
  by (induction os arbitrary: h) (simp_all add: enqueue_heapOrdered)

lemma foldl_enqueue_mset: "mset (toArray (foldl enqueue h os)) = mset (toArray h) + mset os"
  by (induction os arbitrary: h) (simp_all add: toArray_enqueue)

lemma mset_replace_last:
  assumes "k < length h - 1"
  shows "mset ((butlast h)[k := last h]) = mset h - {#h ! k#}"
proof -
  have ne: "h \<noteq> []" using assms by auto
  define b where "b = butlast h"
  define l where "l = last h"
  have h: "h = b @ [l]" using ne by (simp add: b_def l_def)
  have kb: "k < length b" using assms by (simp add: b_def)
  have "mset (b[k := l]) = add_mset l (mset b - {#b ! k#})"
    using kb by (simp add: mset_update)
  moreover have "mset h - {#h ! k#} = add_mset l (mset b - {#b ! k#})"
    using kb by (simp add: h nth_append)
  ultimately show ?thesis by (simp add: b_def l_def)
qed

lemma replace_last_nth:
  "k < length h - 1 \<Longrightarrow> n < length h - 1 \<Longrightarrow>
   (butlast h)[k := last h] ! n = (if n = k then last h else h ! n)"
  by (simp add: nth_list_update nth_butlast)

lemma mset_butlast_nth:
  assumes "h \<noteq> []" shows "mset (butlast h) = mset h - {#h ! (length h - 1)#}"
proof -
  have "h = butlast h @ [last h]" using assms by simp
  then have "mset h = add_mset (last h) (mset (butlast h))"
    by (metis mset.simps(2) mset_append union_mset_add_mset_right add.right_neutral mset.simps(1))
  then show ?thesis using assms by (simp add: last_conv_nth)
qed

lemma heapOrdered_butlast: "heapOrdered h \<Longrightarrow> heapOrdered (butlast h)"
  by (auto simp: heapOrdered_def nth_butlast parentOf_def)

lemma heapOrdered_root:
  assumes "heapOrdered h" shows "i < length h \<Longrightarrow> inOrder (h ! 0) (h ! i)"
proof (induction i rule: less_induct)
  case (less i)
  show ?case
  proof (cases "i = 0")
    case True
    then show ?thesis by (simp add: inOrder_refl)
  next
    case False
    then have p: "parentOf i < i" by (simp add: parentOf_less)
    then have "inOrder (h ! 0) (h ! parentOf i)" using less by simp
    moreover have "inOrder (h ! parentOf i) (h ! i)"
      using assms False less.prems by (simp add: heapOrdered_def)
    ultimately show ?thesis by (rule inOrder_trans)
  qed
qed

lemma dequeue_length:
  assumes "dequeue h = (Some ord, h')" shows "length h' < length h"
proof -
  have "h \<noteq> []" using assms by (auto simp: dequeue_def)
  then have "length (butlast h) < length h" by simp
  then show ?thesis using assms
    by (auto simp: dequeue_def Let_def length_bubbleDown simp del: length_butlast split: if_splits)
qed

lemma dequeue_empty: "dequeue [] = (None, [])"
  by (simp add: dequeue_def)

lemma dequeue_nonempty:
  assumes "h \<noteq> []"
  shows "fst (dequeue h) = Some (order (h ! 0))"
    and "mset (snd (dequeue h)) = mset h - {#h ! 0#}"
    and "heapOrdered h \<Longrightarrow> heapOrdered (snd (dequeue h))"
proof -
  show "fst (dequeue h) = Some (order (h ! 0))"
    using assms by (cases h) (auto simp: dequeue_def Let_def last_conv_nth)
  show "mset (snd (dequeue h)) = mset h - {#h ! 0#}"
  proof (cases "length h = 1")
    case True
    then obtain x where "h = [x]" by (cases h) auto
    then show ?thesis by (simp add: dequeue_def)
  next
    case False
    then have "0 < length h - 1" using assms by (cases h) auto
    then show ?thesis using False assms
      by (simp add: dequeue_def Let_def bubbleDown_mset mset_replace_last)
  qed
  show "heapOrdered (snd (dequeue h))" if ho: "heapOrdered h"
  proof (cases "length h = 1")
    case True
    then obtain x where "h = [x]" by (cases h) auto
    then show ?thesis by (simp add: dequeue_def heapOrdered_Nil)
  next
    case False
    then have k: "0 < length h - 1" using assms by (cases h) auto
    define h1 where "h1 = (butlast h)[0 := last h]"
    have "downInv h1 0"
      unfolding downInv_def
    proof (intro conjI ballI impI)
      fix i assume i: "i \<in> {1..<length h1}" and p: "parentOf i \<noteq> 0"
      have "parentOf i < i" using i by (simp add: parentOf_less)
      moreover have "i < length h" using i by (auto simp: h1_def)
      then have "inOrder (h ! parentOf i) (h ! i)"
        using ho i by (simp add: heapOrdered_def)
      moreover have "h1 ! i = h ! i"
        using i k replace_last_nth [of 0 h i] by (simp add: h1_def)
      moreover have "h1 ! parentOf i = h ! parentOf i"
        using i k p \<open>parentOf i < i\<close> replace_last_nth [of 0 h "parentOf i"] by (simp add: h1_def)
      ultimately show "inOrder (h1 ! parentOf i) (h1 ! i)" by simp
    next
      fix i assume "(0::nat) < 0"
      then show "inOrder (h1 ! parentOf 0) (h1 ! i)" by simp
    qed
    then have "heapOrdered (bubbleDown h1 0)" by (rule bubbleDown_heapOrdered)
    then show ?thesis using False assms by (simp add: dequeue_def Let_def h1_def)
  qed
qed

subsection \<open>Draining the queue\<close>

text \<open>Repeated \<open>dequeue()\<close> until it returns \<open>null\<close>, collecting what it returned.\<close>

function drain :: "PriorityQueue \<Rightarrow> Order list" where
  "drain h = (case dequeue h of (None, h') \<Rightarrow> [] | (Some ord, h') \<Rightarrow> ord # drain h')"
  by pat_completeness auto

termination
  by (relation "measure length") (auto dest: dequeue_length [OF sym])

declare drain.simps [simp del]

lemma drain_Nil: "drain [] = []"
  by (subst drain.simps) (simp add: dequeue_empty)

lemma drain_nonempty: "h \<noteq> [] \<Longrightarrow> drain h = order (h ! 0) # drain (snd (dequeue h))"
  using dequeue_nonempty(1) [of h] by (subst drain.simps) (auto split: prod.splits option.splits)

lemma mset_drain: "mset (drain h) = mset (toArray h)"
proof (induction h rule: length_induct)
  case (1 h)
  show ?case
  proof (cases "h = []")
    case True
    then show ?thesis by (simp add: drain_Nil toArray_def)
  next
    case False
    obtain r h' where d: "dequeue h = (r, h')" by (cases "dequeue h")
    have r: "r = Some (order (h ! 0))" using dequeue_nonempty(1) [OF False] d by simp
    have "length h' < length h" using dequeue_length d r by simp
    then have "mset (drain h') = mset (toArray h')" using 1 by simp
    moreover have "mset h' = mset h - {#h ! 0#}" using dequeue_nonempty(2) [OF False] d by simp
    moreover have "h ! 0 \<in># mset h" using False by (cases h) auto
    ultimately have "mset (drain h') = image_mset order (mset h - {#h ! 0#})"
      by (simp add: toArray_def)
    also have "\<dots> = image_mset order (mset h) - {#order (h ! 0)#}"
      using image_mset_Diff [of "{#h ! 0#}" "mset h" order] \<open>h ! 0 \<in># mset h\<close> by simp
    finally have "mset (drain h') = mset (toArray h) - {#order (h ! 0)#}"
      by (simp add: toArray_def)
    moreover have "order (h ! 0) \<in># mset (toArray h)" using False by (cases h) (auto simp: toArray_def)
    ultimately show ?thesis using d False by (simp add: drain_nonempty)
  qed
qed

lemma drain_sorted: "heapOrdered h \<Longrightarrow> sorted_wrt dequeuedInOrder (drain h)"
proof (induction h rule: length_induct)
  case (1 h)
  show ?case
  proof (cases "h = []")
    case True
    then show ?thesis by (simp add: drain_Nil)
  next
    case False
    obtain r h' where d: "dequeue h = (r, h')" by (cases "dequeue h")
    have r: "r = Some (order (h ! 0))" using dequeue_nonempty(1) [OF False] d by simp
    have "length h' < length h" using dequeue_length d r by simp
    moreover have ho: "heapOrdered h'" using dequeue_nonempty(3) [OF False] "1.prems" d by simp
    ultimately have s: "sorted_wrt dequeuedInOrder (drain h')" using 1 by simp
    have "dequeuedInOrder (order (h ! 0)) x" if "x \<in> set (drain h')" for x
    proof -
      have "x \<in># mset (toArray h')" using that mset_drain [of h'] by (metis set_mset_mset)
      then obtain e where e: "e \<in> set h'" "x = order e" by (auto simp: toArray_def)
      have "mset h' = mset h - {#h ! 0#}" using dequeue_nonempty(2) [OF False] d by simp
      then have "e \<in># mset h" using e(1) by (metis in_diffD set_mset_mset)
      then obtain i where "i < length h" "e = h ! i" by (auto simp: in_set_conv_nth)
      then show ?thesis
        using heapOrdered_root [OF "1.prems", of i] e(2) by (simp add: inOrder_dequeuedInOrder)
    qed
    then show ?thesis using s d False by (simp add: drain_nonempty)
  qed
qed

subsection \<open>dequeueById\<close>

lemma heapOrdered_replace:
  assumes ho: "heapOrdered h" and k: "k < length h - 1"
  shows "heapOrdered (bubbleUp (bubbleDown ((butlast h)[k := last h]) k) k)"
proof -
  define h1 where "h1 = (butlast h)[k := last h]"
  have len: "length h1 = length h - 1" by (simp add: h1_def)
  have nth: "\<And>n. n < length h - 1 \<Longrightarrow> h1 ! n = (if n = k then last h else h ! n)"
    using k by (simp add: h1_def replace_last_nth)
  have H: "\<And>i. 0 < i \<Longrightarrow> i < length h \<Longrightarrow> inOrder (h ! parentOf i) (h ! i)"
    using ho by (simp add: heapOrdered_def)
  have child: "inOrder (h ! parentOf k) (h ! i)"
    if "0 < i" "i < length h - 1" "0 < k" "parentOf i = k" for i
  proof -
    have "inOrder (h ! parentOf k) (h ! k)" using H [of k] k that(3) by simp
    moreover have "inOrder (h ! k) (h ! i)" using H [of i] that by simp
    ultimately show ?thesis by (rule inOrder_trans)
  qed
  show ?thesis
  proof (cases "k = 0 \<or> inOrder (h1 ! parentOf k) (h1 ! k)")
    case True
    have "downInv h1 k"
      unfolding downInv_def
    proof (intro conjI ballI impI)
      fix i assume i: "i \<in> {1..<length h1}" and pk: "parentOf i \<noteq> k"
      have pi: "parentOf i < i" using i by (simp add: parentOf_less)
      show "inOrder (h1 ! parentOf i) (h1 ! i)"
      proof (cases "i = k")
        case True
        then show ?thesis using \<open>k = 0 \<or> inOrder (h1 ! parentOf k) (h1 ! k)\<close> i by auto
      next
        case False
        then show ?thesis using H [of i] i pi pk len by (simp add: nth)
      qed
    next
      fix i assume i: "i \<in> {1..<length h1}" and k0: "0 < k" and pk: "parentOf i = k"
      have "parentOf k < k" using k0 by (rule parentOf_less)
      moreover have "k < i" using pk parentOf_less [of i] i by simp
      ultimately show "inOrder (h1 ! parentOf k) (h1 ! i)"
        using child [of i] i k0 pk k len by (simp add: nth)
    qed
    then have "heapOrdered (bubbleDown h1 k)" by (rule bubbleDown_heapOrdered)
    moreover have "k < length (bubbleDown h1 k)"
      using k len size_mset [of "bubbleDown h1 k"] by (simp add: bubbleDown_mset)
    ultimately have "bubbleUp (bubbleDown h1 k) k = bubbleDown h1 k" by (rule bubbleUp_id)
    then show ?thesis using \<open>heapOrdered (bubbleDown h1 k)\<close> by (simp add: h1_def)
  next
    case False
    then have k0: "0 < k" and nk: "\<not> inOrder (h1 ! parentOf k) (h1 ! k)" by auto
    have pkk: "parentOf k < k" using k0 by (rule parentOf_less)
    have lp: "compare (order (last h)) (order (h ! parentOf k)) < 0"
      using nk pkk k by (simp add: nth inOrder_def)
    have lastchild: "inOrder (last h) (h ! i)"
      if "0 < i" "i < length h - 1" "parentOf i = k" for i
    proof -
      have "inOrder (last h) (h ! parentOf k)" using lp by (rule less_inOrder)
      then show ?thesis using child [of i] that k0 inOrder_trans by blast
    qed
    have "bubbleDown h1 k = h1"
    proof (rule bubbleDown_id)
      fix i assume i: "0 < i" "i < length h1" "parentOf i = k"
      have "k < i" using i parentOf_less [of i] by simp
      then show "inOrder (h1 ! k) (h1 ! i)" using lastchild [of i] i k len by (simp add: nth)
    qed
    moreover have "upInv h1 k"
      unfolding upInv_def
    proof (intro conjI ballI impI)
      show "k < length h1" using k len by simp
    next
      fix i assume i: "i \<in> {1..<length h1}" and ik: "i \<noteq> k"
      have pi: "parentOf i < i" using i by (simp add: parentOf_less)
      show "inOrder (h1 ! parentOf i) (h1 ! i)"
      proof (cases "parentOf i = k")
        case True
        then show ?thesis using lastchild [of i] i ik len k by (simp add: nth)
      next
        case False
        then show ?thesis using H [of i] i ik pi len by (simp add: nth)
      qed
    next
      fix i assume i: "i \<in> {1..<length h1}" and "0 < k" and pk: "parentOf i = k"
      have "k < i" using pk parentOf_less [of i] i by simp
      then show "inOrder (h1 ! parentOf k) (h1 ! i)"
        using child [of i] i k0 pk pkk k len by (simp add: nth)
    qed
    ultimately show ?thesis using bubbleUp_heapOrdered [of h1 k] by (simp add: h1_def)
  qed
qed

lemma toArray_remove:
  assumes "e \<in> set h" and "mset h' = mset h - {#e#}"
  shows "mset (toArray h') = mset (toArray h) - {#order e#}"
proof -
  have "mset (toArray h') = image_mset order (mset h - {#e#})"
    using assms(2) by (simp add: toArray_def)
  also have "\<dots> = image_mset order (mset h) - {#order e#}"
    using image_mset_Diff [of "{#e#}" "mset h" order] assms(1) by simp
  finally show ?thesis by (simp add: toArray_def)
qed

lemma dequeueById_found:
  assumes ho: "heapOrdered h" and ex: "\<exists>e \<in> set h. orderId (order e) = ident"
  shows "\<exists>ord h'. dequeueById h ident = (Some ord, h') \<and> orderId ord = ident \<and>
           ord \<in> set (toArray h) \<and> mset (toArray h') = mset (toArray h) - {#ord#} \<and>
           heapOrdered h' \<and> size_queue h' + 1 = size_queue h"
proof -
  define index where "index = findIndex (\<lambda>element. orderId (order element) = ident) h"
  have n1: "index \<noteq> - 1" using ex by (simp add: index_def findIndex_none)
  then have rng: "0 \<le> index" "index < int (length h)"
    using findIndex_bounds [of "\<lambda>element. orderId (order element) = ident" h]
    by (simp_all add: index_def)
  define k where "k = nat index"
  have kl: "k < length h" using rng by (simp add: k_def)
  have idk: "orderId (order (h ! k)) = ident"
    using findIndex_found [of "\<lambda>element. orderId (order element) = ident" h] n1
    by (simp add: index_def k_def)
  have mem: "h ! k \<in> set h" using kl by simp
  have memo: "order (h ! k) \<in> set (toArray h)" using mem by (simp add: toArray_def)
  show ?thesis
  proof (cases "index \<noteq> int (length h) - 1")
    case True
    then have k1: "k < length h - 1" using rng by (simp add: k_def)
    define h3 where "h3 = bubbleUp (bubbleDown ((butlast h)[k := last h]) k) k"
    have d: "dequeueById h ident = (Some (order (h ! k)), h3)"
      using n1 True by (simp add: dequeueById_def Let_def index_def [symmetric] k_def h3_def)
    have l2: "length (bubbleDown ((butlast h)[k := last h]) k) = length h - 1"
      by (simp add: length_bubbleDown)
    have m: "mset h3 = mset h - {#h ! k#}"
      using k1 l2 by (simp add: h3_def bubbleUp_mset bubbleDown_mset mset_replace_last)
    have "heapOrdered h3" unfolding h3_def using ho k1 by (rule heapOrdered_replace)
    moreover have "mset (toArray h3) = mset (toArray h) - {#order (h ! k)#}"
      using mem m by (rule toArray_remove)
    moreover have "size_queue h3 + 1 = size_queue h"
      using size_mset [of h3] m mem kl by (simp add: size_queue_def size_Diff_singleton)
    ultimately show ?thesis using d idk memo by simp
  next
    case False
    then have kk: "k = length h - 1" using rng by (simp add: k_def)
    have ne: "h \<noteq> []" using kl by auto
    have d: "dequeueById h ident = (Some (order (h ! k)), butlast h)"
      using n1 False by (simp add: dequeueById_def Let_def index_def [symmetric] k_def)
    have m: "mset (butlast h) = mset h - {#h ! k#}" using mset_butlast_nth [OF ne] kk by simp
    have "heapOrdered (butlast h)" using ho by (rule heapOrdered_butlast)
    moreover have "mset (toArray (butlast h)) = mset (toArray h) - {#order (h ! k)#}"
      using mem m by (rule toArray_remove)
    moreover have "size_queue (butlast h) + 1 = size_queue h"
      using ne by (simp add: size_queue_def)
    ultimately show ?thesis using d idk memo by simp
  qed
qed

lemma dequeueById_absent:
  "\<forall>e \<in> set h. orderId (order e) \<noteq> ident \<Longrightarrow> dequeueById h ident = (None, h)"
  by (simp add: dequeueById_def Let_def findIndex_none)

lemma dequeueById_mset_subset: "mset (snd (dequeueById h ident)) \<subseteq># mset h"
proof -
  define index where "index = findIndex (\<lambda>element. orderId (order element) = ident) h"
  show ?thesis
  proof (cases "index = - 1")
    case True
    then show ?thesis by (simp add: dequeueById_def Let_def index_def [symmetric])
  next
    case False
    then have rng: "0 \<le> index" "index < int (length h)"
      using findIndex_bounds [of "\<lambda>element. orderId (order element) = ident" h]
      by (simp_all add: index_def)
    show ?thesis
    proof (cases "index \<noteq> int (length h) - 1")
      case True
      then have k1: "nat index < length h - 1" using rng by simp
      have "length (bubbleDown ((butlast h)[nat index := last h]) (nat index)) = length h - 1"
        by (simp add: length_bubbleDown)
      then have "mset (snd (dequeueById h ident)) = mset h - {#h ! nat index#}"
        using False True k1
        by (simp add: dequeueById_def Let_def index_def [symmetric] bubbleUp_mset bubbleDown_mset
            mset_replace_last)
      then show ?thesis by simp
    next
      case last: False
      have "mset (butlast h) \<subseteq># mset h"
        by (metis append_butlast_last_id butlast.simps(1) mset_subset_eq_add_left mset_append
            subset_mset.order_refl)
      then show ?thesis using False last
        by (simp add: dequeueById_def Let_def index_def [symmetric])
    qed
  qed
qed

lemma dequeueById_heapOrdered:
  assumes "heapOrdered h" shows "heapOrdered (snd (dequeueById h ident))"
proof (cases "\<exists>e \<in> set h. orderId (order e) = ident")
  case True
  then show ?thesis using dequeueById_found [OF assms True] by auto
next
  case False
  then show ?thesis using dequeueById_absent [of h ident] assms by simp
qed

lemma dequeueById_present:
  assumes ex: "\<exists>e \<in> set h. orderId (order e) = ident"
  shows "\<exists>e h'. dequeueById h ident = (Some (order e), h') \<and> e \<in> set h \<and>
           orderId (order e) = ident \<and> mset h' = mset h - {#e#}"
proof -
  define index where "index = findIndex (\<lambda>element. orderId (order element) = ident) h"
  have n1: "index \<noteq> - 1" using ex by (simp add: index_def findIndex_none)
  then have rng: "0 \<le> index" "index < int (length h)"
    using findIndex_bounds [of "\<lambda>element. orderId (order element) = ident" h]
    by (simp_all add: index_def)
  define k where "k = nat index"
  have kl: "k < length h" using rng by (simp add: k_def)
  have idk: "orderId (order (h ! k)) = ident"
    using findIndex_found [of "\<lambda>element. orderId (order element) = ident" h] n1
    by (simp add: index_def k_def)
  have mem: "h ! k \<in> set h" using kl by simp
  show ?thesis
  proof (cases "index \<noteq> int (length h) - 1")
    case True
    then have k1: "k < length h - 1" using rng by (simp add: k_def)
    define h3 where "h3 = bubbleUp (bubbleDown ((butlast h)[k := last h]) k) k"
    have d: "dequeueById h ident = (Some (order (h ! k)), h3)"
      using n1 True by (simp add: dequeueById_def Let_def index_def [symmetric] k_def h3_def)
    have l2: "length (bubbleDown ((butlast h)[k := last h]) k) = length h - 1"
      by (simp add: length_bubbleDown)
    have "mset h3 = mset h - {#h ! k#}"
      using k1 l2 by (simp add: h3_def bubbleUp_mset bubbleDown_mset mset_replace_last)
    then show ?thesis using d idk mem by blast
  next
    case False
    then have kk: "k = length h - 1" using rng by (simp add: k_def)
    have ne: "h \<noteq> []" using kl by auto
    have d: "dequeueById h ident = (Some (order (h ! k)), butlast h)"
      using n1 False by (simp add: dequeueById_def Let_def index_def [symmetric] k_def)
    have "mset (butlast h) = mset h - {#h ! k#}" using mset_butlast_nth [OF ne] kk by simp
    then show ?thesis using d idk mem by blast
  qed
qed

lemma dequeueById_single: "dequeueById [\<lparr>order = ord\<rparr>] (orderId ord) = (Some ord, [])"
  by (simp add: dequeueById_def Let_def)

lemma dequeueById_first_of_two:
  "orderId (order e1) = i \<Longrightarrow> dequeueById [e1, e2] i = (Some (order e1), [e2])"
  by (simp add: dequeueById_def Let_def bubbleDown_single bubbleUp_zero)

lemma dequeueById_second_of_two:
  "orderId (order e1) \<noteq> i \<Longrightarrow> orderId (order e2) = i \<Longrightarrow>
   dequeueById [e1, e2] i = (Some (order e2), [e1])"
  by (simp add: dequeueById_def Let_def)

text \<open>
  \<open>dequeueAll h os\<close> is the queue after \<open>dequeueById\<close> of the identifiers of \<open>os\<close>, one after
  the other; \<open>queuedIds\<close> are the identifiers a queue holds, with their multiplicities.
\<close>

abbreviation dequeueAll :: "PriorityQueue \<Rightarrow> Order list \<Rightarrow> PriorityQueue" where
  "dequeueAll h os \<equiv> foldl (\<lambda>q ord. snd (dequeueById q (orderId ord))) h os"

lemma foldl_dequeue_mset_subset:
  "mset (foldl (\<lambda>q ord. snd (dequeueById q (orderId ord))) h fo) \<subseteq># mset h"
proof (induction fo arbitrary: h)
  case Nil
  then show ?case by simp
next
  case (Cons a fo)
  show ?case
    using Cons [of "snd (dequeueById h (orderId a))"] dequeueById_mset_subset [of h "orderId a"]
    by (simp add: subset_mset.order_trans)
qed

lemma foldl_dequeue_heapOrdered:
  "heapOrdered h \<Longrightarrow> heapOrdered (foldl (\<lambda>q ord. snd (dequeueById q (orderId ord))) h fo)"
  by (induction fo arbitrary: h) (simp_all add: dequeueById_heapOrdered)

lemma dequeueAll_subset: "set (toArray (dequeueAll h os)) \<subseteq> set (toArray h)"
proof -
  have "set (dequeueAll h os) \<subseteq> set h"
    using foldl_dequeue_mset_subset [of h os] set_mset_mono by fastforce
  then show ?thesis by (auto simp: toArray_def)
qed

definition queuedIds :: "PriorityQueue \<Rightarrow> string multiset" where
  "queuedIds h = image_mset (\<lambda>e. orderId (order e)) (mset h)"

lemma dequeueById_queuedIds:
  assumes "ident \<in># queuedIds h"
  shows "fst (dequeueById h ident) \<noteq> None"
    and "queuedIds (snd (dequeueById h ident)) = queuedIds h - {#ident#}"
proof -
  have "\<exists>e \<in> set h. orderId (order e) = ident" using assms by (auto simp: queuedIds_def)
  then obtain e h' where d: "dequeueById h ident = (Some (order e), h')" "e \<in> set h"
    "orderId (order e) = ident" "mset h' = mset h - {#e#}"
    using dequeueById_present by blast
  show "fst (dequeueById h ident) \<noteq> None" using d(1) by simp
  have "queuedIds h' = image_mset (\<lambda>e. orderId (order e)) (mset h) - {#orderId (order e)#}"
    using image_mset_Diff [of "{#e#}" "mset h" "\<lambda>e. orderId (order e)"] d(2,4)
    by (simp add: queuedIds_def)
  then show "queuedIds (snd (dequeueById h ident)) = queuedIds h - {#ident#}"
    using d(1,3) by (simp add: queuedIds_def)
qed

lemma planned_stops_found:
  "image_mset orderId (mset (pre @ ord # post)) \<subseteq># queuedIds h \<Longrightarrow>
   fst (dequeueById (dequeueAll h pre) (orderId ord)) \<noteq> None"
proof (induction pre arbitrary: h)
  case Nil
  then have "orderId ord \<in># queuedIds h" by (simp add: insert_subset_eq_iff)
  then show ?case using dequeueById_queuedIds(1) by simp
next
  case (Cons p pre)
  have s: "add_mset (orderId p) (image_mset orderId (mset (pre @ ord # post))) \<subseteq># queuedIds h"
    using Cons.prems by simp
  then have "orderId p \<in># queuedIds h" by (simp add: insert_subset_eq_iff)
  then have "queuedIds (snd (dequeueById h (orderId p))) = queuedIds h - {#orderId p#}"
    by (rule dequeueById_queuedIds(2))
  moreover have "image_mset orderId (mset (pre @ ord # post)) \<subseteq># queuedIds h - {#orderId p#}"
    using s by (simp add: insert_subset_eq_iff)
  ultimately show ?case using Cons.IH [of "snd (dequeueById h (orderId p))"] by simp
qed



section \<open>The planner\<close>

subsection \<open>Distances\<close>

abbreviation nest :: Point where
  "nest \<equiv> \<lparr>northM = 0, eastM = 0\<rparr>"

lemma calculateDistance_truncate:
  "calculateDistance (Point.truncate p) q = calculateDistance p q"
  "calculateDistance p (Point.truncate q) = calculateDistance p q"
  by (simp_all add: calculateDistance_def Point.truncate_def)

lemma calculateDistance_commute: "calculateDistance p q = calculateDistance q p"
  by (simp add: calculateDistance_def Let_def power2_commute)

lemma calculateDistance_nonneg: "0 \<le> calculateDistance p q"
  by (simp add: calculateDistance_def Let_def)

lemma calculateDistance_north:
  "eastM p = eastM q \<Longrightarrow> calculateDistance p q = \<bar>northM q - northM p\<bar>"
  by (simp add: calculateDistance_def Let_def)

subsection \<open>The planning loop\<close>

lemma splice1_indexOf: "x \<in> set xs \<Longrightarrow> splice1 xs (indexOf xs x) = remove1 x xs"
proof (induction xs)
  case Nil
  then show ?case by simp
next
  case (Cons y ys)
  show ?case
  proof (cases "y = x")
    case True
    then show ?thesis by (simp add: splice1_def indexOf_def)
  next
    case False
    then have x: "x \<in> set ys" using Cons.prems by simp
    have b: "0 \<le> indexOf ys x" "indexOf ys x < int (length ys)" using indexOf_bounds [OF x] by simp_all
    have n: "findIndex (\<lambda>y. y = x) ys \<noteq> - 1" using b by (simp add: indexOf_def)
    have "indexOf (y # ys) x = indexOf ys x + 1" using False n by (simp add: indexOf_def Let_def)
    moreover have "splice1 (y # ys) (indexOf ys x + 1) = y # splice1 ys (indexOf ys x)"
      using b by (simp add: splice1_def Let_def min_def nat_add_distrib)
    ultimately show ?thesis using Cons.IH [OF x] False by simp
  qed
qed

lemma length_remove1_less: "x \<in> set xs \<Longrightarrow> length (remove1 x xs) < length xs"
  using length_pos_if_in_set [of x xs] by (simp add: length_remove1)

lemma planLoop_unfold:
  "planLoop s fo td cur avail lg =
     (if length fo < maxPackagesPerZip s \<and> avail \<noteq> [] then
        (case selectOrder cur avail of
           None \<Rightarrow> (fo, td, cur, lg)
         | Some (x, i, d) \<Rightarrow>
             if td + d + calculateDistance (hospital x) nest \<le> zipMaxCumulativeRangeM s
             then planLoop s (fo @ [x]) (td + d) (Point.truncate (hospital x)) (remove1 x avail) lg
             else planLoop s fo td cur (remove1 x avail)
                    (lg @ [OrderCannotBeFulfilled (orderId x)
                             (td + d + calculateDistance (hospital x) nest)
                             (zipMaxCumulativeRangeM s)]))
      else (fo, td, cur, lg))"
proof (cases "selectOrder cur avail")
  case None
  then show ?thesis by (subst planLoop.simps) simp
next
  case (Some r)
  obtain x i d where r: "r = (x, i, d)" by (cases r)
  note so = selectOrder_Some [OF Some [unfolded r]]
  have "i \<noteq> - 1" using indexOf_bounds [OF so(1)] so(2) by simp
  moreover have "splice1 avail i = remove1 x avail" using so(1,2) by (simp add: splice1_indexOf)
  ultimately show ?thesis using Some r by (subst planLoop.simps) (auto simp: Let_def)
qed

lemma planLoop_prefix:
  "planLoop s fo td cur avail lg = (fo', td', cur', lg') \<Longrightarrow>
   \<exists>ys. fo' = fo @ ys \<and> mset ys \<subseteq># mset avail"
proof (induction "length avail" arbitrary: fo td cur avail lg rule: less_induct)
  case less
  show ?case
  proof (cases "length fo < maxPackagesPerZip s \<and> avail \<noteq> []")
    case False
    then show ?thesis using less.prems by (subst (asm) planLoop_unfold) auto
  next
    case True
    show ?thesis
    proof (cases "selectOrder cur avail")
      case None
      then show ?thesis using less.prems True by (subst (asm) planLoop_unfold) auto
    next
      case (Some r)
      obtain x i d where r: "r = (x, i, d)" by (cases r)
      have xin: "x \<in> set avail" using selectOrder_Some(1) [OF Some [unfolded r]] .
      then have len: "length (remove1 x avail) < length avail"
        by (rule length_remove1_less)
      have sub: "mset (remove1 x avail) \<subseteq># mset avail" by simp
      show ?thesis
      proof (cases "td + d + calculateDistance (hospital x) nest \<le> zipMaxCumulativeRangeM s")
        case yes: True
        then have "planLoop s (fo @ [x]) (td + d) (Point.truncate (hospital x)) (remove1 x avail) lg
                   = (fo', td', cur', lg')"
          using less.prems True Some r by (subst (asm) planLoop_unfold) simp
        then obtain ys where ys: "fo' = (fo @ [x]) @ ys" "mset ys \<subseteq># mset (remove1 x avail)"
          using less.hyps [OF len] by blast
        have "mset (x # ys) \<subseteq># mset avail"
          using ys(2) xin by (simp add: insert_subset_eq_iff)
        then show ?thesis using ys(1) by (intro exI [of _ "x # ys"]) simp
      next
        case no: False
        then have "planLoop s fo td cur (remove1 x avail)
                     (lg @ [OrderCannotBeFulfilled (orderId x)
                             (td + d + calculateDistance (hospital x) nest)
                             (zipMaxCumulativeRangeM s)]) = (fo', td', cur', lg')"
          using less.prems True Some r by (subst (asm) planLoop_unfold) simp
        then obtain ys where ys: "fo' = fo @ ys" "mset ys \<subseteq># mset (remove1 x avail)"
          using less.hyps [OF len] by blast
        then show ?thesis using sub subset_mset.order_trans by blast
      qed
    qed
  qed
qed

lemma planLoop_length:
  "planLoop s fo td cur avail lg = (fo', td', cur', lg') \<Longrightarrow>
   length fo \<le> maxPackagesPerZip s \<Longrightarrow> length fo' \<le> maxPackagesPerZip s"
proof (induction "length avail" arbitrary: fo td cur avail lg rule: less_induct)
  case less
  show ?case
  proof (cases "length fo < maxPackagesPerZip s \<and> avail \<noteq> []")
    case False
    then show ?thesis using less.prems by (subst (asm) planLoop_unfold) auto
  next
    case True
    show ?thesis
    proof (cases "selectOrder cur avail")
      case None
      then show ?thesis using less.prems True by (subst (asm) planLoop_unfold) auto
    next
      case (Some r)
      obtain x i d where r: "r = (x, i, d)" by (cases r)
      have xin: "x \<in> set avail" using selectOrder_Some(1) [OF Some [unfolded r]] .
      then have len: "length (remove1 x avail) < length avail"
        by (rule length_remove1_less)
      show ?thesis
      proof (cases "td + d + calculateDistance (hospital x) nest \<le> zipMaxCumulativeRangeM s")
        case yes: True
        then have "planLoop s (fo @ [x]) (td + d) (Point.truncate (hospital x)) (remove1 x avail) lg
                   = (fo', td', cur', lg')"
          using less.prems True Some r by (subst (asm) planLoop_unfold) simp
        then show ?thesis using less.hyps [OF len] True by simp
      next
        case no: False
        then have "planLoop s fo td cur (remove1 x avail)
                     (lg @ [OrderCannotBeFulfilled (orderId x)
                             (td + d + calculateDistance (hospital x) nest)
                             (zipMaxCumulativeRangeM s)]) = (fo', td', cur', lg')"
          using less.prems True Some r by (subst (asm) planLoop_unfold) simp
        then show ?thesis using less.hyps [OF len] less.prems(2) by simp
      qed
    qed
  qed
qed

text \<open>
  What the loop keeps true of its stops, its distance and its location: with no stop the
  distance is 0, otherwise the distance so far and the leg from the current location back
  to the nest are within the range.
\<close>

definition withinRange :: "ZipScheduler \<Rightarrow> Order list \<Rightarrow> real \<Rightarrow> Point \<Rightarrow> bool" where
  "withinRange s fo td cur =
     (if fo = [] then td = 0 else td + calculateDistance cur nest \<le> zipMaxCumulativeRangeM s)"

lemma planLoop_withinRange:
  "planLoop s fo td cur avail lg = (fo', td', cur', lg') \<Longrightarrow>
   withinRange s fo td cur \<Longrightarrow> withinRange s fo' td' cur'"
proof (induction "length avail" arbitrary: fo td cur avail lg rule: less_induct)
  case less
  show ?case
  proof (cases "length fo < maxPackagesPerZip s \<and> avail \<noteq> []")
    case False
    then show ?thesis using less.prems by (subst (asm) planLoop_unfold) auto
  next
    case True
    show ?thesis
    proof (cases "selectOrder cur avail")
      case None
      then show ?thesis using less.prems True by (subst (asm) planLoop_unfold) auto
    next
      case (Some r)
      obtain x i d where r: "r = (x, i, d)" by (cases r)
      have xin: "x \<in> set avail" using selectOrder_Some(1) [OF Some [unfolded r]] .
      then have len: "length (remove1 x avail) < length avail"
        by (rule length_remove1_less)
      show ?thesis
      proof (cases "td + d + calculateDistance (hospital x) nest \<le> zipMaxCumulativeRangeM s")
        case yes: True
        then have "planLoop s (fo @ [x]) (td + d) (Point.truncate (hospital x)) (remove1 x avail) lg
                   = (fo', td', cur', lg')"
          using less.prems True Some r by (subst (asm) planLoop_unfold) simp
        moreover have "withinRange s (fo @ [x]) (td + d) (Point.truncate (hospital x))"
          using yes by (simp add: withinRange_def calculateDistance_truncate)
        ultimately show ?thesis using less.hyps [OF len] by blast 
      next
        case no: False
        then have "planLoop s fo td cur (remove1 x avail)
                     (lg @ [OrderCannotBeFulfilled (orderId x)
                             (td + d + calculateDistance (hospital x) nest)
                             (zipMaxCumulativeRangeM s)]) = (fo', td', cur', lg')"
          using less.prems True Some r by (subst (asm) planLoop_unfold) simp
        then show ?thesis using less.hyps [OF len] less.prems(2) by blast
      qed
    qed
  qed
qed

lemma planFlight_eq:
  "planLoop s [] 0 nest (toArray (unfulfilledOrders s)) [] = (fo, td, cur, lg) \<Longrightarrow>
   planFlight s =
     ((fo, if fo \<noteq> [] then td + calculateDistance cur nest else td), s\<lparr>logged := logged s @ lg\<rparr>)"
  by (simp add: planFlight_def getUnfulfilledOrders_def Let_def)

lemma planFlight_bounds:
  assumes "planFlight s = ((flightOrders, tot), s')"
  shows "length flightOrders \<le> maxPackagesPerZip s"
    and "flightOrders \<noteq> [] \<Longrightarrow> tot \<le> zipMaxCumulativeRangeM s"
    and "flightOrders = [] \<Longrightarrow> tot = 0"
    and "mset flightOrders \<subseteq># mset (toArray (unfulfilledOrders s))"
proof -
  obtain fo td cur lg where pl:
    "planLoop s [] 0 nest (toArray (unfulfilledOrders s)) [] = (fo, td, cur, lg)"
    by (metis prod_cases4)
  have eq: "flightOrders = fo" "tot = (if fo \<noteq> [] then td + calculateDistance cur nest else td)"
    using assms planFlight_eq [OF pl] by auto
  show "length flightOrders \<le> maxPackagesPerZip s"
    using planLoop_length [OF pl] eq by simp
  have w: "withinRange s fo td cur"
    using planLoop_withinRange [OF pl] by (simp add: withinRange_def)
  show "flightOrders \<noteq> [] \<Longrightarrow> tot \<le> zipMaxCumulativeRangeM s"
    using w eq by (simp add: withinRange_def)
  show "flightOrders = [] \<Longrightarrow> tot = 0"
    using w eq by (simp add: withinRange_def)
  show "mset flightOrders \<subseteq># mset (toArray (unfulfilledOrders s))"
    using planLoop_prefix [OF pl] eq by auto
qed

subsection \<open>What planFlight leaves unchanged\<close>

definition sameConfig :: "ZipScheduler \<Rightarrow> ZipScheduler \<Rightarrow> bool" where
  "sameConfig s s' =
     (hospitals s' = hospitals s \<and> numZips s' = numZips s \<and>
      maxPackagesPerZip s' = maxPackagesPerZip s \<and> zipSpeedMps s' = zipSpeedMps s \<and>
      zipMaxCumulativeRangeM s' = zipMaxCumulativeRangeM s)"

lemma sameConfig_refl: "sameConfig s s"
  by (simp add: sameConfig_def)

lemma sameConfig_trans: "sameConfig s s1 \<Longrightarrow> sameConfig s1 s2 \<Longrightarrow> sameConfig s s2"
  by (simp add: sameConfig_def)

lemma planFlight_state: "\<exists>lg. snd (planFlight s) = s\<lparr>logged := logged s @ lg\<rparr>"
  by (auto simp: planFlight_def Let_def split: prod.splits)

lemma planFlight_fields:
  assumes "planFlight s = (r, s1)"
  shows "unfulfilledOrders s1 = unfulfilledOrders s" and "activeFlights s1 = activeFlights s"
    and "completeOrderCount s1 = completeOrderCount s" and "sameConfig s s1"
  using assms planFlight_state [of s] by (auto simp: sameConfig_def)

lemma planFlight_stops_found:
  assumes "planFlight s = ((fo, td), s1)" and "fo = pre @ ord # post"
  shows "fst (dequeueById (dequeueAll (unfulfilledOrders s1) pre) (orderId ord)) \<noteq> None"
proof -
  have "mset fo \<subseteq># mset (toArray (unfulfilledOrders s))" using planFlight_bounds(4) [OF assms(1)] .
  then have "image_mset orderId (mset fo) \<subseteq># image_mset orderId (mset (toArray (unfulfilledOrders s)))"
    by (rule image_mset_subseteq_mono)
  then have "image_mset orderId (mset (pre @ ord # post)) \<subseteq># queuedIds (unfulfilledOrders s)"
    using assms(2) by (simp add: queuedIds_def toArray_def multiset.map_comp comp_def)
  then show ?thesis using planned_stops_found planFlight_fields(1) [OF assms(1)] by simp
qed

subsection \<open>The first stop of a plan\<close>

text \<open>
  Every order in the queue passed the check of \<open>queueOrder\<close>. Then the first candidate is
  always accepted, and it is an Emergency order whenever one is pending.
\<close>

definition queueWithinRange :: "ZipScheduler \<Rightarrow> bool" where
  "queueWithinRange s =
     (\<forall>ord \<in> set (toArray (unfulfilledOrders s)).
        2 * calculateDistance nest (hospital ord) \<le> zipMaxCumulativeRangeM s)"

lemma findNearestOrder_Some_stays:
  "foldl (\<lambda>acc ord.
              (let distance = calculateDistance cur (hospital ord) in
               if (case acc of None \<Rightarrow> True | Some (nearest, index, minDistance) \<Rightarrow> distance < minDistance)
               then Some (ord, indexOf avail ord, distance)
               else acc)) (Some a) os \<noteq> None"
  by (induction os arbitrary: a) (simp_all add: Let_def)

lemma findNearestOrder_nonempty:
  assumes "os \<noteq> []" shows "findNearestOrder cur avail os \<noteq> None"
proof -
  obtain a list where os: "os = a # list" using assms by (cases os) auto
  show ?thesis
    unfolding findNearestOrder_def os
    using findNearestOrder_Some_stays
      [of cur avail "(a, indexOf avail a, calculateDistance cur (hospital a))" list]
    by (simp add: Let_def)
qed

lemma selectOrder_emergency:
  assumes "\<exists>ord \<in> set avail. priority ord = Emergency"
  shows "\<exists>x i d. selectOrder cur avail = Some (x, i, d) \<and> priority x = Emergency \<and> x \<in> set avail \<and>
           d = calculateDistance cur (hospital x)"
proof -
  have "filter (\<lambda>ord. priority ord = Emergency) avail \<noteq> []"
    using assms by (simp add: filter_empty_conv)
  then obtain r where r: "findNearestOrder cur avail (filter (\<lambda>ord. priority ord = Emergency) avail) = Some r"
    using findNearestOrder_nonempty by blast
  obtain x i d where x: "r = (x, i, d)" by (cases r)
  have "x \<in> set (filter (\<lambda>ord. priority ord = Emergency) avail)"
    and "d = calculateDistance cur (hospital x)"
    using findNearestOrder_Some [OF r [unfolded x]] by simp_all
  moreover have "selectOrder cur avail = Some (x, i, d)"
    using r x by (simp add: selectOrder_def Let_def)
  ultimately show ?thesis by auto
qed

lemma countByPriority_pos:
  "countByPriority s p \<noteq> 0 \<longleftrightarrow> (\<exists>ord \<in> set (toArray (unfulfilledOrders s)). priority ord = p)"
  by (auto simp: countByPriority_def Let_def filter_empty_conv)

lemma planFlight_first_emergency:
  assumes q: "queueWithinRange s" and e: "countByPriority s Emergency \<noteq> 0"
    and p: "planFlight s = ((fo, td), s1)" and ne: "fo \<noteq> []"
  shows "priority (hd fo) = Emergency"
proof -
  define avail where "avail = toArray (unfulfilledOrders s)"
  obtain fo' td' cur' lg' where pl: "planLoop s [] 0 nest avail [] = (fo', td', cur', lg')"
    by (metis prod_cases4)
  have fo: "fo' = fo" using planFlight_eq [OF pl [unfolded avail_def]] p by simp
  have "\<exists>ord \<in> set avail. priority ord = Emergency"
    using e countByPriority_pos [of s Emergency] by (simp add: avail_def)
  then obtain x i d where x: "selectOrder nest avail = Some (x, i, d)" "priority x = Emergency"
    "x \<in> set avail" "d = calculateDistance nest (hospital x)"
    using selectOrder_emergency [of avail nest] by blast
  have m: "0 < maxPackagesPerZip s"
  proof (rule ccontr)
    assume "\<not> 0 < maxPackagesPerZip s"
    then have "fo' = []" using pl by (subst (asm) planLoop_unfold) simp
    then show False using fo ne by simp
  qed
  have "2 * calculateDistance nest (hospital x) \<le> zipMaxCumulativeRangeM s"
    using q x(3) by (simp add: queueWithinRange_def avail_def)
  then have ok: "0 + d + calculateDistance (hospital x) nest \<le> zipMaxCumulativeRangeM s"
    using x(4) calculateDistance_commute [of "hospital x" nest] by simp
  have "avail \<noteq> []" using x(3) by auto
  have "planLoop s ([] @ [x]) (0 + d) (Point.truncate (hospital x)) (remove1 x avail) [] =
        (fo', td', cur', lg')"
    using pl m x(1) ok \<open>avail \<noteq> []\<close> by (subst (asm) planLoop_unfold) simp
  then obtain ys where "fo' = ([] @ [x]) @ ys" using planLoop_prefix by blast
  then show ?thesis using fo x(2) by simp
qed

subsection \<open>Plans for one and two orders\<close>

lemma selectOrder_single: "selectOrder cur [ord] = Some (ord, 0, calculateDistance cur (hospital ord))"
  by (cases "priority ord") (simp_all add: selectOrder_def findNearestOrder_def Let_def indexOf_def)

lemma planFlight_single:
  assumes q: "unfulfilledOrders s = [\<lparr>order = ord\<rparr>]" and m: "0 < maxPackagesPerZip s"
    and r: "2 * calculateDistance nest (hospital ord) \<le> zipMaxCumulativeRangeM s"
  shows "planFlight s = (([ord], 2 * calculateDistance nest (hospital ord)), s)"
proof -
  have c: "calculateDistance (hospital ord) nest = calculateDistance nest (hospital ord)"
    by (rule calculateDistance_commute)
  have "planLoop s [] 0 nest [ord] [] =
        planLoop s [ord] (calculateDistance nest (hospital ord)) (Point.truncate (hospital ord)) [] []"
    using m r c by (subst planLoop_unfold) (simp add: selectOrder_single)
  also have "\<dots> = ([ord], calculateDistance nest (hospital ord), Point.truncate (hospital ord), [])"
    by (subst planLoop_unfold) simp
  finally have "planLoop s [] 0 nest (toArray (unfulfilledOrders s)) [] =
      ([ord], calculateDistance nest (hospital ord), Point.truncate (hospital ord), [])"
    using q by (simp add: toArray_def)
  then show ?thesis
    using planFlight_eq [of s "[ord]" "calculateDistance nest (hospital ord)"
        "Point.truncate (hospital ord)" "[]"] c
    by (simp add: calculateDistance_truncate)
qed

lemma findNearestOrder_two:
  "findNearestOrder cur avail [x, y] =
     (if calculateDistance cur (hospital y) < calculateDistance cur (hospital x)
      then Some (y, indexOf avail y, calculateDistance cur (hospital y))
      else Some (x, indexOf avail x, calculateDistance cur (hospital x)))"
  by (simp add: findNearestOrder_def Let_def)

lemma planFlight_nearest_of_two:
  assumes m: "maxPackagesPerZip s = 1" and r: "zipMaxCumulativeRangeM s = 10000"
    and q: "toArray (unfulfilledOrders s) = [x, y] \<or> toArray (unfulfilledOrders s) = [y, x]"
    and p: "priority x = Emergency" "priority y = Emergency"
    and d: "calculateDistance nest (hospital x) = 3000" "calculateDistance nest (hospital y) = 4000"
  shows "planFlight s = (([x], 6000), s)"
proof -
  have ne: "x \<noteq> y" using d by auto
  have c: "calculateDistance (hospital x) nest = 3000"
    using d(1) calculateDistance_commute [of "hospital x" nest] by simp
  have sel: "selectOrder nest avail = Some (x, indexOf avail x, 3000)"
    if "avail = [x, y] \<or> avail = [y, x]" for avail
    using that p d by (auto simp: selectOrder_def Let_def findNearestOrder_two)
  have "planLoop s [] 0 nest avail [] = ([x], 3000, Point.truncate (hospital x), [])"
    if a: "avail = [x, y] \<or> avail = [y, x]" for avail
  proof -
    have "planLoop s [] 0 nest avail [] =
          planLoop s [x] 3000 (Point.truncate (hospital x)) (remove1 x avail) []"
      using a sel [OF a] m r c by (subst planLoop_unfold) auto
    also have "\<dots> = ([x], 3000, Point.truncate (hospital x), [])"
      using m by (subst planLoop_unfold) simp
    finally show ?thesis .
  qed
  then have "planLoop s [] 0 nest (toArray (unfulfilledOrders s)) [] =
             ([x], 3000, Point.truncate (hospital x), [])"
    using q by blast
  then show ?thesis
    using planFlight_eq [of s "[x]" 3000 "Point.truncate (hospital x)" "[]"] c
    by (simp add: calculateDistance_truncate)
qed

section \<open>The dispatcher\<close>

subsection \<open>queueOrder and releaseReturningZips\<close>

lemma queueOrder_fields:
  "sameConfig s (queueOrder s ord)"
  "activeFlights (queueOrder s ord) = activeFlights s"
  "completeOrderCount (queueOrder s ord) = completeOrderCount s"
  by (simp_all add: queueOrder_def Let_def sameConfig_def)

lemma queueOrder_queue:
  "unfulfilledOrders (queueOrder s ord) =
     (if 2 * calculateDistance nest (hospital ord) > zipMaxCumulativeRangeM s
      then unfulfilledOrders s else enqueue (unfulfilledOrders s) ord)"
  by (simp add: queueOrder_def Let_def)

lemma release_foldl:
  "foldl (\<lambda>(s', kept') flightEntry.
                 if jsLessEq (returnTime flightEntry) t
                 then (s'\<lparr>completeOrderCount :=
                            completeOrderCount s' + length (orders (flight flightEntry)),
                          logged := logged s' @ [FlightCompleted]\<rparr>, kept')
                 else (s', kept' @ [flightEntry])) (s, kept) es =
   (s\<lparr>completeOrderCount := completeOrderCount s +
          sum_list (map (\<lambda>e. length (orders (flight e))) (filter (\<lambda>e. jsLessEq (returnTime e) t) es)),
       logged := logged s @ map (\<lambda>e. FlightCompleted) (filter (\<lambda>e. jsLessEq (returnTime e) t) es)\<rparr>,
    kept @ filter (\<lambda>e. \<not> jsLessEq (returnTime e) t) es)"
  by (induction es arbitrary: s kept) simp_all

lemma releaseReturningZips_eq:
  "releaseReturningZips s t =
     s\<lparr>completeOrderCount := completeOrderCount s +
          sum_list (map (\<lambda>e. length (orders (flight e)))
            (filter (\<lambda>e. jsLessEq (returnTime e) t) (activeFlights s))),
       logged := logged s @
          map (\<lambda>e. FlightCompleted) (filter (\<lambda>e. jsLessEq (returnTime e) t) (activeFlights s)),
       activeFlights := filter (\<lambda>e. \<not> jsLessEq (returnTime e) t) (activeFlights s)\<rparr>"
  by (simp add: releaseReturningZips_def release_foldl)

lemma releaseReturningZips_fields:
  "activeFlights (releaseReturningZips s t) = filter (\<lambda>e. \<not> jsLessEq (returnTime e) t) (activeFlights s)"
  "unfulfilledOrders (releaseReturningZips s t) = unfulfilledOrders s"
  "sameConfig s (releaseReturningZips s t)"
  by (simp_all add: releaseReturningZips_eq sameConfig_def)

lemma releaseReturningZips_idem:
  "releaseReturningZips (releaseReturningZips s t) t = releaseReturningZips s t"
proof -
  have "filter (\<lambda>e. jsLessEq (returnTime e) t) (filter (\<lambda>e. \<not> jsLessEq (returnTime e) t) (activeFlights s)) = []"
    by (simp add: filter_empty_conv)
  then show ?thesis
    by (simp add: releaseReturningZips_eq [of "releaseReturningZips s t"] releaseReturningZips_fields)
qed

lemma calculateReturnTime_sameConfig:
  "sameConfig s s' \<Longrightarrow> calculateReturnTime s' t d = calculateReturnTime s t d"
  by (simp add: calculateReturnTime_def sameConfig_def)

lemma calculateReturnTime_finite:
  "zipSpeedMps s \<noteq> 0 \<Longrightarrow> calculateReturnTime s l d = Finite (l + d / zipSpeedMps s)"
  by (simp add: calculateReturnTime_def jsDivide_def)

subsection \<open>The dispatch step\<close>

lemma dequeueFlightOrder_fields:
  "unfulfilledOrders (dequeueFlightOrder s ord) = snd (dequeueById (unfulfilledOrders s) (orderId ord))"
  "activeFlights (dequeueFlightOrder s ord) = activeFlights s"
  "completeOrderCount (dequeueFlightOrder s ord) = completeOrderCount s"
  "sameConfig s (dequeueFlightOrder s ord)"
  by (auto simp: dequeueFlightOrder_def Let_def sameConfig_def split: prod.splits option.splits)

lemma foldl_dequeueFlightOrder_fields:
  "unfulfilledOrders (foldl dequeueFlightOrder s fo) =
     foldl (\<lambda>q ord. snd (dequeueById q (orderId ord))) (unfulfilledOrders s) fo"
  "activeFlights (foldl dequeueFlightOrder s fo) = activeFlights s"
  "completeOrderCount (foldl dequeueFlightOrder s fo) = completeOrderCount s"
  "sameConfig s (foldl dequeueFlightOrder s fo)"
proof (induction fo arbitrary: s)
  case Nil
  {
    case 1 show ?case by simp
  next
    case 2 show ?case by simp
  next
    case 3 show ?case by simp
  next
    case 4 show ?case by (simp add: sameConfig_refl)
  }
next
  case (Cons a fo)
  {
    case 1 show ?case by (simp add: Cons.IH(1) dequeueFlightOrder_fields)
  next
    case 2 show ?case by (simp add: Cons.IH(2) dequeueFlightOrder_fields)
  next
    case 3 show ?case by (simp add: Cons.IH(3) dequeueFlightOrder_fields)
  next
    case 4 show ?case
      using Cons.IH(4) [of "dequeueFlightOrder s a"] dequeueFlightOrder_fields(4) [of s a]
      by (simp add: sameConfig_trans)
  }
qed

lemma dispatchFlight_fields:
  assumes "dispatchFlight s t fo td = (f, s2)"
  shows "f = newFlight t fo td"
    and "unfulfilledOrders s2 = foldl (\<lambda>q ord. snd (dequeueById q (orderId ord))) (unfulfilledOrders s) fo"
    and "activeFlights s2 = activeFlights s @ [\<lparr>returnTime = calculateReturnTime s t td, flight = f\<rparr>]"
    and "completeOrderCount s2 = completeOrderCount s"
    and "sameConfig s s2"
proof -
  have c: "sameConfig s (foldl dequeueFlightOrder s fo)" by (rule foldl_dequeueFlightOrder_fields)
  show "f = newFlight t fo td" using assms by (auto simp: dispatchFlight_def Let_def)
  show "unfulfilledOrders s2 = foldl (\<lambda>q ord. snd (dequeueById q (orderId ord))) (unfulfilledOrders s) fo"
    using assms by (auto simp: dispatchFlight_def Let_def foldl_dequeueFlightOrder_fields)
  show "activeFlights s2 = activeFlights s @ [\<lparr>returnTime = calculateReturnTime s t td, flight = f\<rparr>]"
    using assms c
    by (auto simp: dispatchFlight_def Let_def foldl_dequeueFlightOrder_fields calculateReturnTime_def
        sameConfig_def)
  show "completeOrderCount s2 = completeOrderCount s"
    using assms by (auto simp: dispatchFlight_def Let_def foldl_dequeueFlightOrder_fields)
  show "sameConfig s s2"
    using assms c by (auto simp: dispatchFlight_def Let_def sameConfig_def)
qed

lemma newFlight_fields:
  "orders (newFlight t fo td) = fo" "launchTime (newFlight t fo td) = t"
  "totalDistance (newFlight t fo td) = td"
  by (simp_all add: newFlight_def)


subsection \<open>One pass of the dispatch loop\<close>

text \<open>
  One pass of the loop of \<open>launchFlights\<close>, as a value: either the flight it launched
  and the state after it, or the state in which the loop ended.
\<close>

definition launchPass :: "real \<Rightarrow> int \<Rightarrow> ZipScheduler \<Rightarrow> (Flight \<times> ZipScheduler) + ZipScheduler" where
  "launchPass t a s =
     (if a > 0 \<and> \<not> isEmpty (unfulfilledOrders s) then
        (case planFlight s of
           ((fo, td), s1) \<Rightarrow>
             if length fo = 0 then Inr s1
             else if countByPriority s Emergency \<noteq> 0 \<and> a < 1
             then Inr (s1\<lparr>logged := logged s1 @
                    [SkippingEmergencyFlight (int (numZips s1) - int (length (activeFlights s1)))]\<rparr>)
             else if countByPriority s Emergency = 0 \<and> a < RESERVED_EMERGENCY_ZIPS
             then Inr (s1\<lparr>logged := logged s1 @
                    [SkippingResupplyFlight a (countByPriority s Resupply)]\<rparr>)
             else Inl (dispatchFlight s1 t fo td))
      else Inr s)"

lemma launchLoop_pass:
  "launchLoop t a fl s =
     (case launchPass t a s of
        Inr s' \<Rightarrow> (fl, s')
      | Inl (f, s2) \<Rightarrow> launchLoop t (a - 1) (fl @ [f]) s2)"
  by (subst launchLoop.simps) (auto simp: launchPass_def Let_def split: prod.splits)

lemma launchPass_Inr:
  assumes "launchPass t a s = Inr s'"
  shows "unfulfilledOrders s' = unfulfilledOrders s" and "activeFlights s' = activeFlights s"
    and "completeOrderCount s' = completeOrderCount s" and "sameConfig s s'"
  using assms planFlight_state [of s]
  by (auto simp: launchPass_def sameConfig_def split: if_splits prod.splits)

lemma launchPass_Inl:
  assumes "launchPass t a s = Inl (f, s2)"
  shows "\<exists>fo td s1. planFlight s = ((fo, td), s1) \<and> fo \<noteq> [] \<and> dispatchFlight s1 t fo td = (f, s2) \<and>
           \<not> (countByPriority s Emergency = 0 \<and> a < RESERVED_EMERGENCY_ZIPS)"
    and "0 < a"
  using assms by (auto simp: launchPass_def split: if_splits prod.splits)

lemma launchLoop_induct_pass:
  assumes stop: "\<And>a fl s s'. launchPass t a s = Inr s' \<Longrightarrow> P a fl s (fl, s')"
    and step: "\<And>a fl s f s2 r. launchPass t a s = Inl (f, s2) \<Longrightarrow>
                 P (a - 1) (fl @ [f]) s2 r \<Longrightarrow> P a fl s r"
  shows "P a fl s (launchLoop t a fl s)"
proof (induction "nat a" arbitrary: a fl s rule: less_induct)
  case less
  show ?case
  proof (cases "launchPass t a s")
    case (Inr s')
    then show ?thesis using stop [OF Inr, of fl] by (subst launchLoop_pass) simp
  next
    case (Inl p)
    obtain f s2 where p: "p = (f, s2)" by (cases p)
    have "0 < a" using launchPass_Inl(2) Inl p by blast
    then have "nat (a - 1) < nat a" by simp
    then have "P (a - 1) (fl @ [f]) s2 (launchLoop t (a - 1) (fl @ [f]) s2)" by (rule less)
    then have "P a fl s (launchLoop t (a - 1) (fl @ [f]) s2)" using step Inl p by blast
    then show ?thesis using Inl p by (subst launchLoop_pass) simp
  qed
qed

definition resupplyOnly :: "Flight \<Rightarrow> bool" where
  "resupplyOnly f = (\<forall>ord \<in> set (orders f). priority ord = Resupply)"

lemma launchPass_Inl_fields:
  assumes "launchPass t a s = Inl (f, s2)"
  shows "orders f \<noteq> []" and "launchTime f = t"
    and "unfulfilledOrders s2 = dequeueAll (unfulfilledOrders s) (orders f)"
    and "activeFlights s2 =
           activeFlights s @ [\<lparr>returnTime = calculateReturnTime s t (totalDistance f), flight = f\<rparr>]"
    and "completeOrderCount s2 = completeOrderCount s"
    and "sameConfig s s2"
    and "mset (orders f) \<subseteq># mset (toArray (unfulfilledOrders s))"
    and "queueWithinRange s \<Longrightarrow> resupplyOnly f \<Longrightarrow> RESERVED_EMERGENCY_ZIPS \<le> a"
    and "totalDistance f \<le> zipMaxCumulativeRangeM s"
    and "length (orders f) \<le> maxPackagesPerZip s"
proof -
  obtain fo td s1 where pf: "planFlight s = ((fo, td), s1)" and ne: "fo \<noteq> []"
    and df: "dispatchFlight s1 t fo td = (f, s2)"
    and rs: "\<not> (countByPriority s Emergency = 0 \<and> a < RESERVED_EMERGENCY_ZIPS)"
    using launchPass_Inl(1) [OF assms] by blast
  note p = planFlight_fields [OF pf]
  note d = dispatchFlight_fields [OF df]
  have f: "orders f = fo" "launchTime f = t" "totalDistance f = td"
    using d(1) by (simp_all add: newFlight_fields)
  show "orders f \<noteq> []" using f ne by simp
  show "launchTime f = t" using f by simp
  show "unfulfilledOrders s2 = dequeueAll (unfulfilledOrders s) (orders f)"
    using d(2) p(1) f by simp
  show "activeFlights s2 =
           activeFlights s @ [\<lparr>returnTime = calculateReturnTime s t (totalDistance f), flight = f\<rparr>]"
    using d(3) p(2) f calculateReturnTime_sameConfig [OF p(4)] by simp
  show "completeOrderCount s2 = completeOrderCount s" using d(4) p(3) by simp
  show "sameConfig s s2" using p(4) d(5) by (rule sameConfig_trans)
  show "mset (orders f) \<subseteq># mset (toArray (unfulfilledOrders s))"
    using planFlight_bounds(4) [OF pf] f by simp
  show "RESERVED_EMERGENCY_ZIPS \<le> a" if q: "queueWithinRange s" and r: "resupplyOnly f"
  proof (rule ccontr)
    assume "\<not> RESERVED_EMERGENCY_ZIPS \<le> a"
    then have "countByPriority s Emergency \<noteq> 0" using rs by simp
    then have "priority (hd fo) = Emergency" using planFlight_first_emergency [OF q _ pf ne] by simp
    moreover have "hd fo \<in> set (orders f)" using f ne by simp
    ultimately show False using r by (auto simp: resupplyOnly_def)
  qed
  show "totalDistance f \<le> zipMaxCumulativeRangeM s" using planFlight_bounds(2) [OF pf ne] f by simp
  show "length (orders f) \<le> maxPackagesPerZip s" using planFlight_bounds(1) [OF pf] f by simp
qed

lemma launchLoop_withheld:
  assumes "countByPriority s Emergency = 0" and "a < RESERVED_EMERGENCY_ZIPS"
  shows "fst (launchLoop t a fl s) = fl"
    and "unfulfilledOrders (snd (launchLoop t a fl s)) = unfulfilledOrders s"
    and "activeFlights (snd (launchLoop t a fl s)) = activeFlights s"
proof -
  obtain fo td s1 where "planFlight s = ((fo, td), s1)" by (metis prod.exhaust)
  then have "\<exists>s'. launchPass t a s = Inr s'"
    using assms by (simp add: launchPass_def)
  then obtain s' where i: "launchPass t a s = Inr s'" by blast
  have l: "launchLoop t a fl s = (fl, s')" using i by (subst launchLoop_pass) simp
  show "fst (launchLoop t a fl s) = fl" using l by simp
  show "unfulfilledOrders (snd (launchLoop t a fl s)) = unfulfilledOrders s"
    using l launchPass_Inr(1) [OF i] by simp
  show "activeFlights (snd (launchLoop t a fl s)) = activeFlights s"
    using l launchPass_Inr(2) [OF i] by simp
qed

subsection \<open>What a call of launchFlights launches\<close>

text \<open>
  \<open>launched t a s new s'\<close>: with \<open>a\<close> vehicles available, the loop launched the flights
  \<open>new\<close>, in this order, from the state \<open>s\<close> and ended in \<open>s'\<close>.
\<close>

definition launched :: "real \<Rightarrow> int \<Rightarrow> ZipScheduler \<Rightarrow> Flight list \<Rightarrow> ZipScheduler \<Rightarrow> bool" where
  "launched t a s new s' =
     (sameConfig s s' \<and> completeOrderCount s' = completeOrderCount s \<and>
      activeFlights s' = activeFlights s @
        map (\<lambda>f. \<lparr>returnTime = calculateReturnTime s t (totalDistance f), flight = f\<rparr>) new \<and>
      unfulfilledOrders s' = dequeueAll (unfulfilledOrders s) (concat (map orders new)) \<and>
      int (length new) \<le> max a 0 \<and>
      (\<forall>f \<in> set new. launchTime f = t \<and> orders f \<noteq> [] \<and>
         set (orders f) \<subseteq> set (toArray (unfulfilledOrders s)) \<and>
         totalDistance f \<le> zipMaxCumulativeRangeM s \<and>
         length (orders f) \<le> maxPackagesPerZip s) \<and>
      (queueWithinRange s \<longrightarrow>
         (\<forall>k < length new. resupplyOnly (new ! k) \<longrightarrow> RESERVED_EMERGENCY_ZIPS \<le> a - int k)))"

lemma launched_Nil:
  assumes "launchPass t a s = Inr s'" shows "launched t a s [] s'"
  using launchPass_Inr [OF assms] by (simp add: launched_def)

lemma launched_Cons:
  assumes lp: "launchPass t a s = Inl (f, s2)" and l: "launched t (a - 1) s2 new s'"
  shows "launched t a s (f # new) s'"
proof -
  note i = launchPass_Inl_fields [OF lp]
  have a: "0 < a" using launchPass_Inl(2) [OF lp] .
  have sub: "set (toArray (unfulfilledOrders s2)) \<subseteq> set (toArray (unfulfilledOrders s))"
    using i(3) dequeueAll_subset by simp
  have q2: "queueWithinRange s2" if "queueWithinRange s"
    using that sub i(6) by (auto simp: queueWithinRange_def sameConfig_def)
  have c: "zipMaxCumulativeRangeM s2 = zipMaxCumulativeRangeM s" "maxPackagesPerZip s2 = maxPackagesPerZip s"
    using i(6) by (simp_all add: sameConfig_def)
  have "sameConfig s s'" using i(6) l by (auto simp: launched_def intro: sameConfig_trans)
  moreover have "completeOrderCount s' = completeOrderCount s" using i(5) l by (simp add: launched_def)
  moreover have "activeFlights s' = activeFlights s @
        map (\<lambda>f. \<lparr>returnTime = calculateReturnTime s t (totalDistance f), flight = f\<rparr>) (f # new)"
    using i(4) l calculateReturnTime_sameConfig [OF i(6)] by (simp add: launched_def)
  moreover have "unfulfilledOrders s' = dequeueAll (unfulfilledOrders s) (concat (map orders (f # new)))"
    using i(3) l by (simp add: launched_def)
  moreover have "int (length (f # new)) \<le> max a 0" using a l by (simp add: launched_def)
  moreover have "\<forall>g \<in> set (f # new). launchTime g = t \<and> orders g \<noteq> [] \<and>
         set (orders g) \<subseteq> set (toArray (unfulfilledOrders s)) \<and>
         totalDistance g \<le> zipMaxCumulativeRangeM s \<and>
         length (orders g) \<le> maxPackagesPerZip s"
  proof
    fix g assume "g \<in> set (f # new)"
    then consider "g = f" | "g \<in> set new" by auto
    then show "launchTime g = t \<and> orders g \<noteq> [] \<and>
         set (orders g) \<subseteq> set (toArray (unfulfilledOrders s)) \<and>
         totalDistance g \<le> zipMaxCumulativeRangeM s \<and>
         length (orders g) \<le> maxPackagesPerZip s"
    proof cases
      case 1
      then show ?thesis using i(1,2,7,9,10) set_mset_mono [OF i(7)] by auto
    next
      case 2
      then show ?thesis using l sub c unfolding launched_def by auto
    qed
  qed
  moreover have "\<forall>k < length (f # new). resupplyOnly ((f # new) ! k) \<longrightarrow>
                   RESERVED_EMERGENCY_ZIPS \<le> a - int k" if q: "queueWithinRange s"
  proof (intro allI impI)
    fix k assume k: "k < length (f # new)" and r: "resupplyOnly ((f # new) ! k)"
    show "RESERVED_EMERGENCY_ZIPS \<le> a - int k"
    proof (cases k)
      case 0
      then show ?thesis using i(8) [OF q] r by simp
    next
      case (Suc j)
      then have "RESERVED_EMERGENCY_ZIPS \<le> a - 1 - int j"
        using l q2 [OF q] k r by (simp add: launched_def)
      then show ?thesis using Suc by simp
    qed
  qed
  ultimately show ?thesis unfolding launched_def by blast
qed

lemma launchLoop_launched:
  "\<exists>new. fst (launchLoop t a fl s) = fl @ new \<and> launched t a s new (snd (launchLoop t a fl s))"
proof (rule launchLoop_induct_pass
    [where P = "\<lambda>a fl s r. \<exists>new. fst r = fl @ new \<and> launched t a s new (snd r)"])
  fix a fl s s'
  assume "launchPass t a s = Inr s'"
  then show "\<exists>new. fst (fl, s') = fl @ new \<and> launched t a s new (snd (fl, s'))"
    using launched_Nil by auto
next
  fix a fl s f s2 r
  assume lp: "launchPass t a s = Inl (f, s2)"
    and "\<exists>new. fst r = (fl @ [f]) @ new \<and> launched t (a - 1) s2 new (snd r)"
  then obtain new where "fst r = (fl @ [f]) @ new" "launched t (a - 1) s2 new (snd r)" by blast
  then have "fst r = fl @ (f # new) \<and> launched t a s (f # new) (snd r)"
    using launched_Cons [OF lp] by simp
  then show "\<exists>new. fst r = fl @ new \<and> launched t a s new (snd r)" by blast
qed

lemma launchFlights_launched:
  "launched t (int (numZips s) - int (length (activeFlights (releaseReturningZips s t))))
     (releaseReturningZips s t) (fst (launchFlights s t)) (snd (launchFlights s t))"
proof -
  define s1 where "s1 = releaseReturningZips s t"
  define a where "a = int (numZips s1) - int (length (activeFlights s1))"
  have n: "numZips s1 = numZips s"
    using releaseReturningZips_fields(3) [of s t] by (simp add: s1_def sameConfig_def)
  show ?thesis
  proof (cases "isEmpty (unfulfilledOrders s1)")
    case True
    then have "launchFlights s t = ([], s1)" by (simp add: launchFlights_def Let_def s1_def)
    moreover have "launchPass t a s1 = Inr s1" using True by (simp add: launchPass_def)
    ultimately show ?thesis using launched_Nil [of t a s1 s1] n by (simp add: s1_def a_def)
  next
    case False
    then have "launchFlights s t = launchLoop t a [] s1"
      by (simp add: launchFlights_def Let_def s1_def a_def)
    then show ?thesis using launchLoop_launched [of t a "[]" s1] n by (auto simp: s1_def a_def)
  qed
qed

lemma launchFlights_after_release:
  "launchFlights (releaseReturningZips s t) t = launchFlights s t"
  by (simp add: launchFlights_def releaseReturningZips_idem)

lemma launchFlights_queue_subset:
  "set (toArray (unfulfilledOrders (snd (launchFlights s t)))) \<subseteq> set (toArray (unfulfilledOrders s))"
  using launchFlights_launched [of t s] dequeueAll_subset
  by (simp add: launched_def releaseReturningZips_fields)

lemma launchFlights_sameConfig: "sameConfig s (snd (launchFlights s t))"
  using launchFlights_launched [of t s] releaseReturningZips_fields(3) [of s t]
  by (auto simp: launched_def intro: sameConfig_trans)

subsection \<open>What the dispatch loop reports of its dequeues\<close>












subsection \<open>A queue that holds one order\<close>

lemma countByPriority_single:
  "unfulfilledOrders s = [\<lparr>order = ord\<rparr>] \<Longrightarrow>
   countByPriority s p = (if priority ord = p then 1 else 0)"
  by (simp add: countByPriority_def toArray_def Let_def)

lemma launchLoop_single:
  assumes q: "unfulfilledOrders s = [\<lparr>order = ord\<rparr>]" and m: "0 < maxPackagesPerZip s"
    and r: "2 * calculateDistance nest (hospital ord) \<le> zipMaxCumulativeRangeM s"
    and a: "0 < a" and p: "priority ord = Emergency \<or> RESERVED_EMERGENCY_ZIPS \<le> a"
  shows "launchLoop t a fl s =
     (fl @ [newFlight t [ord] (2 * calculateDistance nest (hospital ord))],
      s\<lparr>unfulfilledOrders := [],
        logged := logged s @ [OrderDequeued (orderId ord)],
        activeFlights := activeFlights s @
          [\<lparr>returnTime = calculateReturnTime s t (2 * calculateDistance nest (hospital ord)),
            flight = newFlight t [ord] (2 * calculateDistance nest (hospital ord))\<rparr>]\<rparr>)"
proof -
  define d where "d = 2 * calculateDistance nest (hospital ord)"
  define s2 where "s2 = s\<lparr>unfulfilledOrders := [],
        logged := logged s @ [OrderDequeued (orderId ord)],
        activeFlights := activeFlights s @ [\<lparr>returnTime = calculateReturnTime s t d, flight = newFlight t [ord] d\<rparr>]\<rparr>"
  have df: "dispatchFlight s t [ord] d = (newFlight t [ord] d, s2)"
    using q by (simp add: dispatchFlight_def dequeueFlightOrder_def dequeueById_single Let_def
        calculateReturnTime_def s2_def)
  have e: "\<not> (countByPriority s Emergency = 0 \<and> a < RESERVED_EMERGENCY_ZIPS)"
    using p by (auto simp: countByPriority_single [OF q])
  have "launchPass t a s = Inl (newFlight t [ord] d, s2)"
    using a q e planFlight_single [OF q m r] df
    by (simp add: launchPass_def isEmpty_def d_def [symmetric] RESERVED_EMERGENCY_ZIPS_def)
  moreover have "launchPass t (a - 1) s2 = Inr s2"
    by (simp add: launchPass_def isEmpty_def s2_def)
  ultimately have "launchLoop t a fl s = (fl @ [newFlight t [ord] d], s2)"
    by (subst launchLoop_pass, simp, subst launchLoop_pass, simp)
  then show ?thesis by (simp add: d_def s2_def)
qed

lemma launchLoop_single_withheld:
  assumes q: "unfulfilledOrders s = [\<lparr>order = ord\<rparr>]" and m: "0 < maxPackagesPerZip s"
    and r: "2 * calculateDistance nest (hospital ord) \<le> zipMaxCumulativeRangeM s"
    and a: "0 < a" "a < RESERVED_EMERGENCY_ZIPS" and p: "priority ord = Resupply"
  shows "launchLoop t a fl s = (fl, s\<lparr>logged := logged s @ [SkippingResupplyFlight a 1]\<rparr>)"
proof -
  have "launchPass t a s = Inr (s\<lparr>logged := logged s @ [SkippingResupplyFlight a 1]\<rparr>)"
    using a q p planFlight_single [OF q m r]
    by (simp add: launchPass_def isEmpty_def countByPriority_single [OF q])
  then show ?thesis by (subst launchLoop_pass) simp
qed

subsection \<open>Reachable schedulers\<close>

text \<open>
  The schedulers that the constructor and any sequence of calls of the public methods
  \<open>queueOrder\<close>, \<open>launchFlights\<close> and \<open>releaseReturningZips\<close> produce.
\<close>

inductive reachable :: "ZipScheduler \<Rightarrow> bool" where
  reachable_new: "reachable (newZipScheduler hs n m v r)"
| reachable_queueOrder: "reachable s \<Longrightarrow> reachable (queueOrder s ord)"
| reachable_launchFlights: "reachable s \<Longrightarrow> reachable (snd (launchFlights s t))"
| reachable_release: "reachable s \<Longrightarrow> reachable (releaseReturningZips s t)"

lemma queueWithinRange_subset:
  assumes "queueWithinRange s" and "sameConfig s s'"
    and "mset (unfulfilledOrders s') \<subseteq># mset (unfulfilledOrders s)"
  shows "queueWithinRange s'"
proof -
  have "set (unfulfilledOrders s') \<subseteq> set (unfulfilledOrders s)"
    using assms(3) set_mset_mono by fastforce
  then show ?thesis using assms(1,2) by (auto simp: queueWithinRange_def sameConfig_def toArray_def)
qed

lemma queueOrder_queueWithinRange:
  assumes "queueWithinRange s" shows "queueWithinRange (queueOrder s ord)"
proof -
  have c: "zipMaxCumulativeRangeM (queueOrder s ord) = zipMaxCumulativeRangeM s"
    using queueOrder_fields(1) [of s ord] by (simp add: sameConfig_def)
  have "set (toArray (enqueue (unfulfilledOrders s) ord)) = insert ord (set (toArray (unfulfilledOrders s)))"
    using toArray_enqueue [of "unfulfilledOrders s" ord]
    by (metis set_mset_add_mset_insert set_mset_mset)
  then show ?thesis using assms
    by (auto simp: queueWithinRange_def c queueOrder_queue)
qed

lemma reachable_queueWithinRange: "reachable s \<Longrightarrow> queueWithinRange s"
proof (induction rule: reachable.induct)
  case (reachable_new hs n m v r)
  then show ?case by (simp add: queueWithinRange_def newZipScheduler_def toArray_def)
next
  case (reachable_queueOrder s ord)
  then show ?case by (simp add: queueOrder_queueWithinRange)
next
  case (reachable_launchFlights s t)
  then show ?case
    using launchFlights_queue_subset [of s t] launchFlights_sameConfig [of s t]
    by (auto simp: queueWithinRange_def sameConfig_def)
next
  case (reachable_release s t)
  then show ?case
    using releaseReturningZips_fields(2,3) [of s t] by (auto simp: queueWithinRange_def sameConfig_def)
qed

lemma reachable_heapOrdered: "reachable s \<Longrightarrow> heapOrdered (unfulfilledOrders s)"
proof (induction rule: reachable.induct)
  case (reachable_new hs n m v r)
  then show ?case by (simp add: newZipScheduler_def heapOrdered_Nil)
next
  case (reachable_queueOrder s ord)
  then show ?case by (simp add: queueOrder_queue enqueue_heapOrdered)
next
  case (reachable_launchFlights s t)
  then show ?case
    using launchFlights_launched [of t s]
    by (simp add: launched_def releaseReturningZips_fields foldl_dequeue_heapOrdered)
next
  case (reachable_release s t)
  then show ?case by (simp add: releaseReturningZips_fields)
qed

section \<open>Examples\<close>

subsection \<open>A heap of six orders\<close>

definition exampleHospital :: Hospital where
  "exampleHospital = \<lparr>northM = 1000, eastM = 0, name = ''A''\<rparr>"

definition exampleElement :: "string \<Rightarrow> Priority \<Rightarrow> real \<Rightarrow> PriorityQueueElement" where
  "exampleElement i p t = \<lparr>order = \<lparr>orderId = i, hospital = exampleHospital, priority = p, time = t\<rparr>\<rparr>"

definition exampleHeap :: PriorityQueue where
  "exampleHeap =
     [exampleElement ''a'' Emergency 1, exampleElement ''b'' Emergency 5,
      exampleElement ''c'' Emergency 2, exampleElement ''d'' Resupply 0,
      exampleElement ''e'' Emergency 7, exampleElement ''f'' Emergency 3]"

lemma exampleHeap_heapOrdered: "heapOrdered exampleHeap"
  by code_simp

lemma exampleHeap_has_d: "\<exists>e \<in> set exampleHeap. orderId (order e) = ''d''"
  by code_simp

lemma exampleHeap_no_z: "\<forall>e \<in> set exampleHeap. orderId (order e) \<noteq> ''z''"
  by code_simp

lemma exampleHeap_dequeue_d:
  "dequeueById exampleHeap ''d'' =
     (Some (order (exampleElement ''d'' Resupply 0)),
      [exampleElement ''a'' Emergency 1, exampleElement ''f'' Emergency 3,
       exampleElement ''c'' Emergency 2, exampleElement ''b'' Emergency 5,
       exampleElement ''e'' Emergency 7])"
  by code_simp

lemma example_drain:
  "drain (foldl enqueue []
     [order (exampleElement ''r1'' Resupply 1), order (exampleElement ''e9'' Emergency 9),
      order (exampleElement ''r0'' Resupply 0), order (exampleElement ''e2'' Emergency 2)]) =
   [order (exampleElement ''e2'' Emergency 2), order (exampleElement ''e9'' Emergency 9),
    order (exampleElement ''r0'' Resupply 0), order (exampleElement ''r1'' Resupply 1)]"
  by code_simp

subsection \<open>A plan that drops a candidate\<close>

text \<open>
  Orders on the north-south axis through the nest. After the stop 1,000 m to the south, the
  Emergency order 4,500 m to the north would make a route of 11,000 m and is dropped; the
  Resupply order 2,000 m to the south is appended after it.
\<close>

definition orderAt :: "string \<Rightarrow> real \<Rightarrow> Priority \<Rightarrow> real \<Rightarrow> Order" where
  "orderAt i north p t =
     \<lparr>orderId = i, hospital = \<lparr>northM = north, eastM = 0, name = i\<rparr>, priority = p, time = t\<rparr>"

lemma orderAt_simps:
  "orderId (orderAt i north p t) = i"
  "priority (orderAt i north p t) = p"
  "time (orderAt i north p t) = t"
  "northM (hospital (orderAt i north p t)) = north"
  "eastM (hospital (orderAt i north p t)) = 0"
  "name (hospital (orderAt i north p t)) = i"
  by (simp_all add: orderAt_def)

lemma orderAt_eq:
  "orderAt i north p t = orderAt i' north' p' t' \<longleftrightarrow> i = i' \<and> north = north' \<and> p = p' \<and> t = t'"
  by (auto simp: orderAt_def)

lemma calculateDistance_orderAt:
  "calculateDistance nest (hospital (orderAt i north p t)) = \<bar>north\<bar>"
  "calculateDistance (hospital (orderAt i north p t)) nest = \<bar>north\<bar>"
  "calculateDistance (Point.truncate (hospital (orderAt i north p t))) nest = \<bar>north\<bar>"
  "calculateDistance (Point.truncate (hospital (orderAt i north p t))) (hospital (orderAt i' north' p' t'))
     = \<bar>north' - north\<bar>"
  by (simp_all add: calculateDistance_north calculateDistance_truncate orderAt_simps)

definition exampleDetour :: ZipScheduler where
  "exampleDetour =
     (newZipScheduler Map.empty 1 3 30 10000)
       \<lparr>unfulfilledOrders :=
          [\<lparr>order = orderAt ''west'' (- 1000) Emergency 0\<rparr>,
           \<lparr>order = orderAt ''east'' 4500 Emergency 1\<rparr>,
           \<lparr>order = orderAt ''far west'' (- 2000) Resupply 2\<rparr>]\<rparr>"

lemma exampleDetour_fields:
  "maxPackagesPerZip exampleDetour = 3"
  "zipMaxCumulativeRangeM exampleDetour = 10000"
  "toArray (unfulfilledOrders exampleDetour) =
     [orderAt ''west'' (- 1000) Emergency 0, orderAt ''east'' 4500 Emergency 1,
      orderAt ''far west'' (- 2000) Resupply 2]"
  by (simp_all add: exampleDetour_def newZipScheduler_def toArray_def)

lemma selectOrder_example1:
  "selectOrder nest
     [orderAt ''west'' (- 1000) Emergency 0, orderAt ''east'' 4500 Emergency 1,
      orderAt ''far west'' (- 2000) Resupply 2] = Some (orderAt ''west'' (- 1000) Emergency 0, 0, 1000)"
  by (simp add: selectOrder_def findNearestOrder_def Let_def indexOf_def orderAt_simps
      calculateDistance_orderAt orderAt_eq)

lemma selectOrder_example2:
  "selectOrder (Point.truncate (hospital (orderAt ''west'' (- 1000) Emergency 0)))
     [orderAt ''east'' 4500 Emergency 1, orderAt ''far west'' (- 2000) Resupply 2]
   = Some (orderAt ''east'' 4500 Emergency 1, 0, 5500)"
  by (simp add: selectOrder_def findNearestOrder_def Let_def indexOf_def orderAt_simps
      calculateDistance_orderAt orderAt_eq)

lemma selectOrder_example3:
  "selectOrder (Point.truncate (hospital (orderAt ''west'' (- 1000) Emergency 0)))
     [orderAt ''far west'' (- 2000) Resupply 2]
   = Some (orderAt ''far west'' (- 2000) Resupply 2, 0, 1000)"
  by (simp add: selectOrder_def findNearestOrder_def Let_def indexOf_def orderAt_simps
      calculateDistance_orderAt orderAt_eq)

lemma planLoop_example:
  "planLoop exampleDetour [] 0 nest
     [orderAt ''west'' (- 1000) Emergency 0, orderAt ''east'' 4500 Emergency 1,
      orderAt ''far west'' (- 2000) Resupply 2] [] =
   ([orderAt ''west'' (- 1000) Emergency 0, orderAt ''far west'' (- 2000) Resupply 2], 2000,
    Point.truncate (hospital (orderAt ''far west'' (- 2000) Resupply 2)),
    [OrderCannotBeFulfilled ''east'' 11000 10000])"
  apply (subst planLoop_unfold)
  apply (simp add: exampleDetour_fields selectOrder_example1 calculateDistance_orderAt orderAt_eq)
  apply (subst planLoop_unfold)
  apply (simp add: exampleDetour_fields selectOrder_example2 calculateDistance_orderAt orderAt_eq orderAt_simps)
  apply (subst planLoop_unfold)
  apply (simp add: exampleDetour_fields selectOrder_example3 calculateDistance_orderAt orderAt_eq orderAt_simps)
  apply (subst planLoop_unfold)
  apply (simp add: exampleDetour_fields)
  done

lemma planFlight_example:
  "planFlight exampleDetour =
     (([orderAt ''west'' (- 1000) Emergency 0, orderAt ''far west'' (- 2000) Resupply 2], 4000),
      exampleDetour\<lparr>logged := logged exampleDetour @ [OrderCannotBeFulfilled ''east'' 11000 10000]\<rparr>)"
  using planFlight_eq [of exampleDetour, unfolded exampleDetour_fields, OF planLoop_example]
  by (simp add: calculateDistance_orderAt)


subsection \<open>Scenario C: five vehicles and one Resupply order\<close>

definition scenarioC :: ZipScheduler where
  "scenarioC = queueOrder (newZipScheduler Map.empty 5 3 30 10000) (orderAt ''r1'' 1000 Resupply 0)"

lemma scenarioC_fields:
  "unfulfilledOrders scenarioC = [\<lparr>order = orderAt ''r1'' 1000 Resupply 0\<rparr>]"
  "activeFlights scenarioC = []"
  "numZips scenarioC = 5"
  "maxPackagesPerZip scenarioC = 3"
  "zipMaxCumulativeRangeM scenarioC = 10000"
  "zipSpeedMps scenarioC = 30"
  by (simp_all add: scenarioC_def queueOrder_def Let_def newZipScheduler_def
      calculateDistance_orderAt enqueue_Nil)

lemma scenarioC_reachable: "reachable scenarioC"
  unfolding scenarioC_def by (intro reachable.intros)

lemma scenarioC_released: "releaseReturningZips scenarioC t = scenarioC"
  by (simp add: releaseReturningZips_eq scenarioC_fields)

lemma scenarioC_launchFlights:
  "launchFlights scenarioC t =
     ([newFlight t [orderAt ''r1'' 1000 Resupply 0] 2000],
      scenarioC\<lparr>unfulfilledOrders := [],
        logged := logged scenarioC @ [OrderDequeued ''r1''],
        activeFlights := [\<lparr>returnTime = Finite (t + 200 / 3),
            flight = newFlight t [orderAt ''r1'' 1000 Resupply 0] 2000\<rparr>]\<rparr>)"
proof -
  have "launchFlights scenarioC t = launchLoop t 5 [] scenarioC"
    by (simp add: launchFlights_def Let_def scenarioC_released scenarioC_fields isEmpty_def)
  also have "\<dots> = ([] @ [newFlight t [orderAt ''r1'' 1000 Resupply 0]
                          (2 * calculateDistance nest (hospital (orderAt ''r1'' 1000 Resupply 0)))],
      scenarioC\<lparr>unfulfilledOrders := [],
        logged := logged scenarioC @ [OrderDequeued (orderId (orderAt ''r1'' 1000 Resupply 0))],
        activeFlights := activeFlights scenarioC @
          [\<lparr>returnTime = calculateReturnTime scenarioC t
               (2 * calculateDistance nest (hospital (orderAt ''r1'' 1000 Resupply 0))),
            flight = newFlight t [orderAt ''r1'' 1000 Resupply 0]
               (2 * calculateDistance nest (hospital (orderAt ''r1'' 1000 Resupply 0)))\<rparr>]\<rparr>)"
    by (rule launchLoop_single)
       (simp_all add: scenarioC_fields calculateDistance_orderAt RESERVED_EMERGENCY_ZIPS_def)
  finally show ?thesis
    by (simp add: scenarioC_fields calculateDistance_orderAt orderAt_simps calculateReturnTime_def
        jsDivide_def)
qed

subsection \<open>Scenario D: a flight that returns at 200\<close>

definition scenarioD :: ZipScheduler where
  "scenarioD =
     queueOrder
       (snd (launchFlights
          (queueOrder (newZipScheduler Map.empty 1 1 30 10000) (orderAt ''a'' 1500 Emergency 99))
          100))
       (orderAt ''b'' 1000 Emergency 150)"

lemma scenarioD_first:
  "launchFlights (queueOrder (newZipScheduler Map.empty 1 1 30 10000) (orderAt ''a'' 1500 Emergency 99)) 100 =
     ([newFlight 100 [orderAt ''a'' 1500 Emergency 99] 3000],
      (newZipScheduler Map.empty 1 1 30 10000)
        \<lparr>logged := [OrderQueued ''a'' Emergency 1 1 0 1, OrderDequeued ''a''],
          activeFlights := [\<lparr>returnTime = Finite 200,
             flight = newFlight 100 [orderAt ''a'' 1500 Emergency 99] 3000\<rparr>]\<rparr>)"
proof -
  define s where "s = queueOrder (newZipScheduler Map.empty 1 1 30 10000) (orderAt ''a'' 1500 Emergency 99)"
  have f: "unfulfilledOrders s = [\<lparr>order = orderAt ''a'' 1500 Emergency 99\<rparr>]"
    "activeFlights s = []" "numZips s = 1" "maxPackagesPerZip s = 1"
    "zipMaxCumulativeRangeM s = 10000" "zipSpeedMps s = 30"
    "logged s = [OrderQueued ''a'' Emergency 1 1 0 1]"
    by (simp_all add: s_def queueOrder_def Let_def newZipScheduler_def calculateDistance_orderAt
        enqueue_Nil unfulfilledOrdersCount_def size_queue_def countByPriority_def toArray_def
        orderAt_simps)
  have r: "releaseReturningZips s 100 = s" by (simp add: releaseReturningZips_eq f)
  have "launchFlights s 100 = launchLoop 100 1 [] s"
    by (simp add: launchFlights_def Let_def r f isEmpty_def)
  also have "\<dots> = ([] @ [newFlight 100 [orderAt ''a'' 1500 Emergency 99]
                          (2 * calculateDistance nest (hospital (orderAt ''a'' 1500 Emergency 99)))],
      s\<lparr>unfulfilledOrders := [],
        logged := logged s @ [OrderDequeued (orderId (orderAt ''a'' 1500 Emergency 99))],
        activeFlights := activeFlights s @
          [\<lparr>returnTime = calculateReturnTime s 100
               (2 * calculateDistance nest (hospital (orderAt ''a'' 1500 Emergency 99))),
            flight = newFlight 100 [orderAt ''a'' 1500 Emergency 99]
               (2 * calculateDistance nest (hospital (orderAt ''a'' 1500 Emergency 99)))\<rparr>]\<rparr>)"
    by (rule launchLoop_single) (simp_all add: f calculateDistance_orderAt orderAt_simps)
  finally show ?thesis
    unfolding s_def [symmetric]
    by (simp add: f calculateDistance_orderAt orderAt_simps calculateReturnTime_finite)
       (simp add: s_def queueOrder_def Let_def newZipScheduler_def calculateDistance_orderAt
        enqueue_Nil unfulfilledOrdersCount_def size_queue_def countByPriority_def toArray_def
        orderAt_simps)
qed

lemma scenarioD_fields:
  "unfulfilledOrders scenarioD = [\<lparr>order = orderAt ''b'' 1000 Emergency 150\<rparr>]"
  "activeFlights scenarioD =
     [\<lparr>returnTime = Finite 200, flight = newFlight 100 [orderAt ''a'' 1500 Emergency 99] 3000\<rparr>]"
  "numZips scenarioD = 1" "maxPackagesPerZip scenarioD = 1"
  "zipMaxCumulativeRangeM scenarioD = 10000" "zipSpeedMps scenarioD = 30"
  unfolding scenarioD_def scenarioD_first
  by (simp_all add: queueOrder_def Let_def newZipScheduler_def calculateDistance_orderAt enqueue_Nil)

lemma scenarioD_at_199: "fst (launchFlights scenarioD 199) = []"
proof -
  define s1 where "s1 = releaseReturningZips scenarioD 199"
  have a: "activeFlights s1 = activeFlights scenarioD"
    by (simp add: s1_def releaseReturningZips_fields scenarioD_fields)
  have n: "numZips s1 = 1"
    using releaseReturningZips_fields(3) [of scenarioD 199]
    by (simp add: s1_def sameConfig_def scenarioD_fields)
  have "launchPass 199 0 s1 = Inr s1" by (simp add: launchPass_def)
  then have "launchLoop 199 0 [] s1 = ([], s1)" by (subst launchLoop_pass) simp
  then show ?thesis
    using a n by (simp add: launchFlights_def Let_def s1_def [symmetric] scenarioD_fields)
qed

lemma scenarioD_at_200:
  "fst (launchFlights scenarioD 200) = [newFlight 200 [orderAt ''b'' 1000 Emergency 150] 2000]"
proof -
  define s1 where "s1 = releaseReturningZips scenarioD 200"
  have c: "sameConfig scenarioD s1" by (simp add: s1_def releaseReturningZips_fields)
  have f: "activeFlights s1 = []" "unfulfilledOrders s1 = [\<lparr>order = orderAt ''b'' 1000 Emergency 150\<rparr>]"
    "numZips s1 = 1" "maxPackagesPerZip s1 = 1" "zipMaxCumulativeRangeM s1 = 10000"
    using c by (simp_all add: s1_def releaseReturningZips_fields scenarioD_fields sameConfig_def)
  have "launchFlights scenarioD 200 = launchLoop 200 1 [] s1"
    by (simp add: launchFlights_def Let_def s1_def [symmetric] f isEmpty_def)
  moreover have "launchLoop 200 1 [] s1 =
      ([] @ [newFlight 200 [orderAt ''b'' 1000 Emergency 150]
              (2 * calculateDistance nest (hospital (orderAt ''b'' 1000 Emergency 150)))],
       s1\<lparr>unfulfilledOrders := [],
        logged := logged s1 @ [OrderDequeued (orderId (orderAt ''b'' 1000 Emergency 150))],
        activeFlights := activeFlights s1 @
          [\<lparr>returnTime = calculateReturnTime s1 200
               (2 * calculateDistance nest (hospital (orderAt ''b'' 1000 Emergency 150))),
            flight = newFlight 200 [orderAt ''b'' 1000 Emergency 150]
               (2 * calculateDistance nest (hospital (orderAt ''b'' 1000 Emergency 150)))\<rparr>]\<rparr>)"
    by (rule launchLoop_single) (simp_all add: f calculateDistance_orderAt orderAt_simps)
  ultimately show ?thesis by (simp add: calculateDistance_orderAt)
qed

chapter \<open>The claims\<close>

section \<open>C1: the reservation\<close>

text \<open>
  Claim C1. From any reachable scheduler, the flight that \<open>launchFlights\<close> launches as
  number \<open>k\<close> of a call leaves when \<open>numZips\<close> minus the active flights (those still
  active after the release step, and the \<open>k\<close> flights launched before it in this call)
  vehicles are available; if all its stops are Resupply orders, that number is not below
  \<open>RESERVED_EMERGENCY_ZIPS\<close>. Whenever the dispatch loop runs with fewer vehicles than
  the reservation and no Emergency order is pending, it launches nothing more and the
  queue keeps every order.
\<close>

theorem reservation_invariant:
  assumes "reachable s"
  shows "(\<forall>k < length (fst (launchFlights s t)).
            resupplyOnly (fst (launchFlights s t) ! k) \<longrightarrow>
            \<not> int (numZips s) - int (length (activeFlights (releaseReturningZips s t))) - int k
                < RESERVED_EMERGENCY_ZIPS) \<and>
         (countByPriority s1 Emergency = 0 \<and> a < RESERVED_EMERGENCY_ZIPS \<longrightarrow>
            fst (launchLoop t a fl s1) = fl \<and>
            unfulfilledOrders (snd (launchLoop t a fl s1)) = unfulfilledOrders s1 \<and>
            activeFlights (snd (launchLoop t a fl s1)) = activeFlights s1)"
proof -
  have "reachable (releaseReturningZips s t)" using assms by (rule reachable_release)
  then have "queueWithinRange (releaseReturningZips s t)" by (rule reachable_queueWithinRange)
  then have "\<forall>k < length (fst (launchFlights s t)).
            resupplyOnly (fst (launchFlights s t) ! k) \<longrightarrow>
            RESERVED_EMERGENCY_ZIPS \<le>
              int (numZips s) - int (length (activeFlights (releaseReturningZips s t))) - int k"
    using launchFlights_launched [of t s] by (simp add: launched_def)
  then show ?thesis using launchLoop_withheld [of s1 a t fl] by (simp add: not_less)
qed

theorem reservation_invariant_witness:
  "reachable scenarioC \<and>
   0 < length (fst (launchFlights scenarioC 0)) \<and>
   resupplyOnly (fst (launchFlights scenarioC 0) ! 0) \<and>
   \<not> int (numZips scenarioC) - int (length (activeFlights (releaseReturningZips scenarioC 0))) - int 0
       < RESERVED_EMERGENCY_ZIPS \<and>
   countByPriority scenarioC Emergency = 0 \<and> 3 < RESERVED_EMERGENCY_ZIPS \<and>
   fst (launchLoop 0 3 [] scenarioC) = [] \<and>
   unfulfilledOrders (snd (launchLoop 0 3 [] scenarioC)) = unfulfilledOrders scenarioC \<and>
   activeFlights (snd (launchLoop 0 3 [] scenarioC)) = activeFlights scenarioC"
  using reservation_invariant [OF scenarioC_reachable, of 0 scenarioC 3 "[]"] scenarioC_reachable
  by (simp add: scenarioC_launchFlights scenarioC_fields scenarioC_released resupplyOnly_def
      newFlight_fields orderAt_simps countByPriority_def toArray_def RESERVED_EMERGENCY_ZIPS_def)

section \<open>C2: Scenario C\<close>

text \<open>
  Claim C2, as amended. With 5 vehicles, a reservation of 4 and exactly one pending
  order, a reachable Resupply order: when at least 4 vehicles are available after the
  release step, in particular when all 5 are, \<open>launchFlights\<close> launches exactly one
  flight, which carries that order, and the queue is empty afterwards
  (\<open>availableZips < RESERVED_EMERGENCY_ZIPS\<close> is false); when fewer than 4 are
  available it launches no flight and the order stays queued.
\<close>

theorem scenario_C_boundary:
  assumes "numZips s = 5" and "0 < maxPackagesPerZip s"
    and "unfulfilledOrders s = [\<lparr>order = ord\<rparr>]" and "priority ord = Resupply"
    and "2 * calculateDistance nest (hospital ord) \<le> zipMaxCumulativeRangeM s"
  shows "(RESERVED_EMERGENCY_ZIPS \<le> 5 - int (length (activeFlights (releaseReturningZips s t))) \<longrightarrow>
            map orders (fst (launchFlights s t)) = [[ord]] \<and>
            unfulfilledOrders (snd (launchFlights s t)) = []) \<and>
         (5 - int (length (activeFlights (releaseReturningZips s t))) < RESERVED_EMERGENCY_ZIPS \<longrightarrow>
            fst (launchFlights s t) = [] \<and>
            unfulfilledOrders (snd (launchFlights s t)) = [\<lparr>order = ord\<rparr>])"
proof -
  define s1 where "s1 = releaseReturningZips s t"
  define a where "a = 5 - int (length (activeFlights s1))"
  have c: "sameConfig s s1" and q: "unfulfilledOrders s1 = [\<lparr>order = ord\<rparr>]"
    using assms(3) by (simp_all add: s1_def releaseReturningZips_fields)
  have m: "0 < maxPackagesPerZip s1"
    and r: "2 * calculateDistance nest (hospital ord) \<le> zipMaxCumulativeRangeM s1"
    and n: "numZips s1 = 5"
    using c assms(1,2,5) by (simp_all add: sameConfig_def)
  have lf: "launchFlights s t = launchLoop t a [] s1"
    using q n by (simp add: launchFlights_def Let_def s1_def [symmetric] a_def isEmpty_def)
  have one: "map orders (fst (launchFlights s t)) = [[ord]] \<and>
            unfulfilledOrders (snd (launchFlights s t)) = []" if "RESERVED_EMERGENCY_ZIPS \<le> a"
  proof -
    have "0 < a" using that by (simp add: RESERVED_EMERGENCY_ZIPS_def)
    then show ?thesis
      using launchLoop_single [OF q m r _ disjI2 [OF that], of t "[]"] lf
      by (simp add: newFlight_fields)
  qed
  have none: "fst (launchFlights s t) = [] \<and>
            unfulfilledOrders (snd (launchFlights s t)) = [\<lparr>order = ord\<rparr>]"
    if lt: "a < RESERVED_EMERGENCY_ZIPS"
  proof (cases "0 < a")
    case True
    then show ?thesis
      using launchLoop_single_withheld [OF q m r True lt assms(4), of t "[]"] lf q by simp
  next
    case False
    then have "launchPass t a s1 = Inr s1" by (simp add: launchPass_def)
    then have "launchLoop t a [] s1 = ([], s1)" by (subst launchLoop_pass) simp
    then show ?thesis using lf q by simp
  qed
  show ?thesis using one none by (simp add: a_def s1_def)
qed

theorem scenario_C_boundary_witness:
  "numZips scenarioC = 5 \<and> 0 < maxPackagesPerZip scenarioC \<and>
   unfulfilledOrders scenarioC = [\<lparr>order = orderAt ''r1'' 1000 Resupply 0\<rparr>] \<and>
   priority (orderAt ''r1'' 1000 Resupply 0) = Resupply \<and>
   2 * calculateDistance nest (hospital (orderAt ''r1'' 1000 Resupply 0))
     \<le> zipMaxCumulativeRangeM scenarioC \<and>
   RESERVED_EMERGENCY_ZIPS \<le> 5 - int (length (activeFlights (releaseReturningZips scenarioC 0))) \<and>
   map orders (fst (launchFlights scenarioC 0)) = [[orderAt ''r1'' 1000 Resupply 0]] \<and>
   unfulfilledOrders (snd (launchFlights scenarioC 0)) = []"
  using scenario_C_boundary [of scenarioC "orderAt ''r1'' 1000 Resupply 0" 0]
  by (simp add: scenarioC_fields scenarioC_released calculateDistance_orderAt orderAt_simps
      RESERVED_EMERGENCY_ZIPS_def)

text \<open>
  The claim as it was stated fails: in Scenario C itself, with all five vehicles
  available, \<open>launchFlights\<close> launches one flight, not none.
\<close>

theorem scenario_C_counterexample:
  "numZips scenarioC = 5 \<and> RESERVED_EMERGENCY_ZIPS = 4 \<and> reachable scenarioC \<and>
   getUnfulfilledOrders scenarioC = [orderAt ''r1'' 1000 Resupply 0] \<and>
   countByPriority scenarioC Resupply = 1 \<and> countByPriority scenarioC Emergency = 0 \<and>
   activeFlightsCount scenarioC = 0 \<and>
   length (fst (launchFlights scenarioC 0)) = 1 \<and>
   map orders (fst (launchFlights scenarioC 0)) = [[orderAt ''r1'' 1000 Resupply 0]]"
  by (simp add: scenarioC_fields scenarioC_reachable scenarioC_launchFlights newFlight_fields
      RESERVED_EMERGENCY_ZIPS_def getUnfulfilledOrders_def toArray_def activeFlightsCount_def
      countByPriority_def orderAt_simps)

section \<open>C3: range rejection\<close>

text \<open>
  Claim C3. \<open>queueOrder\<close> of an order whose round trip \<open>2 * distance(nest, hospital)\<close>
  exceeds \<open>zipMaxCumulativeRangeM\<close> leaves the queue and its size unchanged and logs the
  rejection at error level; an order within the bound is enqueued. No reachable
  scheduler holds such an order in its queue, and no flight that \<open>launchFlights\<close>
  returns carries it.
\<close>

theorem range_rejection:
  "(zipMaxCumulativeRangeM s < 2 * calculateDistance nest (hospital ord) \<longrightarrow>
      unfulfilledOrders (queueOrder s ord) = unfulfilledOrders s \<and>
      unfulfilledOrdersCount (queueOrder s ord) = unfulfilledOrdersCount s \<and>
      logged (queueOrder s ord) = logged s @
        [OrderExceedsMaximumRange (orderId ord) (2 * calculateDistance nest (hospital ord))
           (zipMaxCumulativeRangeM s)] \<and>
      logLevel (last (logged (queueOrder s ord))) = LogError) \<and>
   (2 * calculateDistance nest (hospital ord) \<le> zipMaxCumulativeRangeM s \<longrightarrow>
      unfulfilledOrders (queueOrder s ord) = enqueue (unfulfilledOrders s) ord \<and>
      mset (getUnfulfilledOrders (queueOrder s ord)) = add_mset ord (mset (getUnfulfilledOrders s)) \<and>
      unfulfilledOrdersCount (queueOrder s ord) = unfulfilledOrdersCount s + 1) \<and>
   (reachable s' \<and> zipMaxCumulativeRangeM s' < 2 * calculateDistance nest (hospital ord) \<longrightarrow>
      ord \<notin> set (getUnfulfilledOrders s') \<and>
      (\<forall>f \<in> set (fst (launchFlights s' t)). ord \<notin> set (orders f)))"
proof (intro conjI impI)
  assume far: "zipMaxCumulativeRangeM s < 2 * calculateDistance nest (hospital ord)"
  show "unfulfilledOrders (queueOrder s ord) = unfulfilledOrders s"
    and "unfulfilledOrdersCount (queueOrder s ord) = unfulfilledOrdersCount s"
    and "logged (queueOrder s ord) = logged s @
        [OrderExceedsMaximumRange (orderId ord) (2 * calculateDistance nest (hospital ord))
           (zipMaxCumulativeRangeM s)]"
    and "logLevel (last (logged (queueOrder s ord))) = LogError"
    using far by (simp_all add: queueOrder_def Let_def unfulfilledOrdersCount_def)
next
  assume near: "2 * calculateDistance nest (hospital ord) \<le> zipMaxCumulativeRangeM s"
  then show q: "unfulfilledOrders (queueOrder s ord) = enqueue (unfulfilledOrders s) ord"
    by (simp add: queueOrder_queue)
  show "mset (getUnfulfilledOrders (queueOrder s ord)) = add_mset ord (mset (getUnfulfilledOrders s))"
    using q by (simp add: getUnfulfilledOrders_def toArray_enqueue)
  have "length (enqueue (unfulfilledOrders s) ord) = length (unfulfilledOrders s) + 1"
    using size_mset [of "enqueue (unfulfilledOrders s) ord"] by (simp add: enqueue_mset)
  then show "unfulfilledOrdersCount (queueOrder s ord) = unfulfilledOrdersCount s + 1"
    using q by (simp add: unfulfilledOrdersCount_def size_queue_def)
next
  assume a: "reachable s' \<and> zipMaxCumulativeRangeM s' < 2 * calculateDistance nest (hospital ord)"
  then have w: "queueWithinRange s'" using reachable_queueWithinRange by blast
  then show n: "ord \<notin> set (getUnfulfilledOrders s')"
    using a by (auto simp: queueWithinRange_def getUnfulfilledOrders_def)
  show "\<forall>f \<in> set (fst (launchFlights s' t)). ord \<notin> set (orders f)"
  proof
    fix f assume "f \<in> set (fst (launchFlights s' t))"
    then have "set (orders f) \<subseteq> set (toArray (unfulfilledOrders (releaseReturningZips s' t)))"
      using launchFlights_launched [of t s'] by (simp add: launched_def)
    then show "ord \<notin> set (orders f)"
      using n by (auto simp: releaseReturningZips_fields getUnfulfilledOrders_def)
  qed
qed

theorem range_rejection_witness:
  "zipMaxCumulativeRangeM scenarioC < 2 * calculateDistance nest (hospital (orderAt ''far'' 6000 Emergency 1)) \<and>
   unfulfilledOrders (queueOrder scenarioC (orderAt ''far'' 6000 Emergency 1)) = unfulfilledOrders scenarioC \<and>
   logged (queueOrder scenarioC (orderAt ''far'' 6000 Emergency 1)) =
     logged scenarioC @ [OrderExceedsMaximumRange ''far'' 12000 10000] \<and>
   2 * calculateDistance nest (hospital (orderAt ''near'' 5000 Emergency 1)) \<le> zipMaxCumulativeRangeM scenarioC \<and>
   unfulfilledOrdersCount (queueOrder scenarioC (orderAt ''near'' 5000 Emergency 1)) =
     unfulfilledOrdersCount scenarioC + 1 \<and>
   reachable (queueOrder scenarioC (orderAt ''far'' 6000 Emergency 1)) \<and>
   orderAt ''far'' 6000 Emergency 1 \<notin>
     set (getUnfulfilledOrders (queueOrder scenarioC (orderAt ''far'' 6000 Emergency 1))) \<and>
   orderAt ''far'' 6000 Emergency 1 \<notin>
     set (concat (map orders (fst (launchFlights (queueOrder scenarioC (orderAt ''far'' 6000 Emergency 1)) 0))))"
  using range_rejection [of scenarioC "orderAt ''far'' 6000 Emergency 1"
      "queueOrder scenarioC (orderAt ''far'' 6000 Emergency 1)" 0]
    range_rejection [of scenarioC "orderAt ''near'' 5000 Emergency 1"]
    reachable_queueOrder [OF scenarioC_reachable, of "orderAt ''far'' 6000 Emergency 1"]
    queueOrder_fields(1) [of scenarioC "orderAt ''far'' 6000 Emergency 1"]
  by (auto simp: scenarioC_fields calculateDistance_orderAt orderAt_simps sameConfig_def)

section \<open>C4: queue ordering\<close>

text \<open>
  Claim C4. For every sequence of enqueues into an empty queue, dequeuing until the queue
  is empty returns exactly the enqueued orders, every Emergency order before any
  Resupply order, and within one priority class in non-decreasing arrival time.
\<close>

theorem queue_ordering:
  "sorted_wrt dequeuedInOrder (drain (foldl enqueue [] os)) \<and>
   mset (drain (foldl enqueue [] os)) = mset os"
  using drain_sorted [OF foldl_enqueue_heapOrdered [OF heapOrdered_Nil]]
  by (simp add: mset_drain foldl_enqueue_mset toArray_Nil)

theorem queue_ordering_witness:
  "sorted_wrt dequeuedInOrder
     [order (exampleElement ''e2'' Emergency 2), order (exampleElement ''e9'' Emergency 9),
      order (exampleElement ''r0'' Resupply 0), order (exampleElement ''r1'' Resupply 1)] \<and>
   mset [order (exampleElement ''e2'' Emergency 2), order (exampleElement ''e9'' Emergency 9),
      order (exampleElement ''r0'' Resupply 0), order (exampleElement ''r1'' Resupply 1)] =
   mset [order (exampleElement ''r1'' Resupply 1), order (exampleElement ''e9'' Emergency 9),
      order (exampleElement ''r0'' Resupply 0), order (exampleElement ''e2'' Emergency 2)]"
  using queue_ordering
    [of "[order (exampleElement ''r1'' Resupply 1), order (exampleElement ''e9'' Emergency 9),
          order (exampleElement ''r0'' Resupply 0), order (exampleElement ''e2'' Emergency 2)]"]
  unfolding example_drain by simp

section \<open>C5: removal by identifier\<close>

text \<open>
  Claim C5. On a queue that satisfies the heap invariant, \<open>dequeueById\<close> of an
  identifier the queue holds returns an order with that identifier, removes that one
  order and nothing else, leaves a queue that satisfies the heap invariant again and
  is shorter by exactly one; for an identifier the queue does not hold it returns
  \<open>null\<close> and the queue is unchanged.
\<close>

theorem dequeueById_correct:
  assumes "heapOrdered h"
  shows "((\<exists>e \<in> set h. orderId (order e) = ident) \<longrightarrow>
            (\<exists>ord h'. dequeueById h ident = (Some ord, h') \<and> orderId ord = ident \<and>
               ord \<in> set (toArray h) \<and> mset (toArray h') = mset (toArray h) - {#ord#} \<and>
               heapOrdered h' \<and> size_queue h' + 1 = size_queue h)) \<and>
         ((\<forall>e \<in> set h. orderId (order e) \<noteq> ident) \<longrightarrow> dequeueById h ident = (None, h))"
  using dequeueById_found [OF assms] dequeueById_absent by blast

theorem dequeueById_correct_witness:
  "heapOrdered exampleHeap \<and>
   (\<exists>e \<in> set exampleHeap. orderId (order e) = ''d'') \<and>
   (\<exists>ord h'. dequeueById exampleHeap ''d'' = (Some ord, h') \<and> orderId ord = ''d'' \<and>
      ord \<in> set (toArray exampleHeap) \<and>
      mset (toArray h') = mset (toArray exampleHeap) - {#ord#} \<and>
      heapOrdered h' \<and> size_queue h' + 1 = size_queue exampleHeap) \<and>
   dequeueById exampleHeap ''d'' =
     (Some (order (exampleElement ''d'' Resupply 0)),
      [exampleElement ''a'' Emergency 1, exampleElement ''f'' Emergency 3,
       exampleElement ''c'' Emergency 2, exampleElement ''b'' Emergency 5,
       exampleElement ''e'' Emergency 7]) \<and>
   ''z'' \<notin> set (map orderId (toArray exampleHeap)) \<and>
   dequeueById exampleHeap ''z'' = (None, exampleHeap)"
  using dequeueById_correct [OF exampleHeap_heapOrdered, of "''d''"]
    dequeueById_correct [OF exampleHeap_heapOrdered, of "''z''"]
    exampleHeap_heapOrdered exampleHeap_has_d exampleHeap_no_z exampleHeap_dequeue_d
  by (auto simp: toArray_def)

section \<open>C6: capacity and range of a plan\<close>

text \<open>
  Claim C6. \<open>planFlight\<close> returns at most \<open>maxPackagesPerZip\<close> stops; when it returns
  stops, the returned distance, the leg back to the nest included, is within
  \<open>zipMaxCumulativeRangeM\<close> (with no stops it is 0). A selected candidate whose
  extended distance exceeds the range is dropped from the candidates of this pass and
  the loop goes on with the same stops, distance and location, so that a later candidate
  can still be appended.
\<close>

theorem planFlight_capacity_and_range:
  "(planFlight s = ((flightOrders, tot), s') \<longrightarrow>
      length flightOrders \<le> maxPackagesPerZip s \<and>
      (flightOrders \<noteq> [] \<longrightarrow> tot \<le> zipMaxCumulativeRangeM s) \<and>
      (flightOrders = [] \<longrightarrow> tot = 0)) \<and>
   (length fo < maxPackagesPerZip s \<and> selectOrder cur avail = Some (x, i, d) \<and>
      zipMaxCumulativeRangeM s < td + d + calculateDistance (hospital x) nest \<longrightarrow>
      planLoop s fo td cur avail lg =
        planLoop s fo td cur (remove1 x avail)
          (lg @ [OrderCannotBeFulfilled (orderId x)
                   (td + d + calculateDistance (hospital x) nest) (zipMaxCumulativeRangeM s)]))"
proof (intro conjI impI)
  assume p: "planFlight s = ((flightOrders, tot), s')"
  show "length flightOrders \<le> maxPackagesPerZip s" using planFlight_bounds(1) [OF p] .
  show "tot \<le> zipMaxCumulativeRangeM s" if "flightOrders \<noteq> []"
    using planFlight_bounds(2) [OF p that] .
  show "tot = 0" if "flightOrders = []" using planFlight_bounds(3) [OF p that] .
next
  assume a: "length fo < maxPackagesPerZip s \<and> selectOrder cur avail = Some (x, i, d) \<and>
      zipMaxCumulativeRangeM s < td + d + calculateDistance (hospital x) nest"
  then have "avail \<noteq> []" using selectOrder_Some(1) [of cur avail x i d] by auto
  then show "planLoop s fo td cur avail lg =
        planLoop s fo td cur (remove1 x avail)
          (lg @ [OrderCannotBeFulfilled (orderId x)
                   (td + d + calculateDistance (hospital x) nest) (zipMaxCumulativeRangeM s)])"
    using a by (subst planLoop_unfold) simp
qed

theorem planFlight_capacity_and_range_witness:
  "planFlight exampleDetour =
     (([orderAt ''west'' (- 1000) Emergency 0, orderAt ''far west'' (- 2000) Resupply 2], 4000),
      exampleDetour\<lparr>logged := logged exampleDetour @ [OrderCannotBeFulfilled ''east'' 11000 10000]\<rparr>) \<and>
   length [orderAt ''west'' (- 1000) Emergency 0, orderAt ''far west'' (- 2000) Resupply 2]
     \<le> maxPackagesPerZip exampleDetour \<and>
   (4000 :: real) \<le> zipMaxCumulativeRangeM exampleDetour \<and>
   selectOrder (Point.truncate (hospital (orderAt ''west'' (- 1000) Emergency 0)))
     [orderAt ''east'' 4500 Emergency 1, orderAt ''far west'' (- 2000) Resupply 2]
     = Some (orderAt ''east'' 4500 Emergency 1, 0, 5500) \<and>
   planLoop exampleDetour [orderAt ''west'' (- 1000) Emergency 0] 1000
     (Point.truncate (hospital (orderAt ''west'' (- 1000) Emergency 0)))
     [orderAt ''east'' 4500 Emergency 1, orderAt ''far west'' (- 2000) Resupply 2] [] =
   planLoop exampleDetour [orderAt ''west'' (- 1000) Emergency 0] 1000
     (Point.truncate (hospital (orderAt ''west'' (- 1000) Emergency 0)))
     [orderAt ''far west'' (- 2000) Resupply 2] [OrderCannotBeFulfilled ''east'' 11000 10000]"
  using planFlight_capacity_and_range
    [of exampleDetour
        "[orderAt ''west'' (- 1000) Emergency 0, orderAt ''far west'' (- 2000) Resupply 2]" 4000
        "exampleDetour\<lparr>logged := logged exampleDetour @ [OrderCannotBeFulfilled ''east'' 11000 10000]\<rparr>"
        "[orderAt ''west'' (- 1000) Emergency 0]"
        "Point.truncate (hospital (orderAt ''west'' (- 1000) Emergency 0))"
        "[orderAt ''east'' 4500 Emergency 1, orderAt ''far west'' (- 2000) Resupply 2]"
        "orderAt ''east'' 4500 Emergency 1" 0 5500 1000 "[]"]
    planFlight_example selectOrder_example2
  by (simp add: exampleDetour_fields calculateDistance_orderAt orderAt_simps orderAt_eq)

section \<open>C7: Scenario A\<close>

text \<open>
  Claim C7 (Scenario A). One vehicle, one package per flight, a range of 10,000 m, and two
  Emergency orders queued in this order: one 3,000 m from the nest, then one 4,000 m
  from it, with arrival times 0 and 1. \<open>launchFlights(1)\<close> launches exactly one flight, which
  carries the nearer order alone, and the other order is what the queue holds
  afterwards. The arrival times enter only through the hypothesis that the nearer order
  did not arrive later, or else that the two identifiers differ: the nearest order is
  planned, not the earliest.
\<close>

theorem scenario_A:
  assumes p: "priority o1 = Emergency" "priority o2 = Emergency"
    and d: "calculateDistance nest (hospital o1) = 3000" "calculateDistance nest (hospital o2) = 4000"
    and i: "time o1 \<le> time o2 \<or> orderId o1 \<noteq> orderId o2"
  shows "length (fst (launchFlights (queueOrder (queueOrder (newZipScheduler hs 1 1 v 10000) o1) o2) 1)) = 1 \<and>
         map orders (fst (launchFlights (queueOrder (queueOrder (newZipScheduler hs 1 1 v 10000) o1) o2) 1))
           = [[o1]] \<and>
         getUnfulfilledOrders (snd (launchFlights (queueOrder (queueOrder (newZipScheduler hs 1 1 v 10000) o1) o2) 1))
           = [o2]"
proof -
  define s0 where "s0 = newZipScheduler hs 1 1 v 10000"
  define s where "s = queueOrder (queueOrder s0 o1) o2"
  have c0: "sameConfig s0 s"
    unfolding s_def using queueOrder_fields(1) sameConfig_trans by blast
  have cfg: "numZips s = 1" "maxPackagesPerZip s = 1" "zipMaxCumulativeRangeM s = 10000"
    using c0 by (simp_all add: sameConfig_def s0_def newZipScheduler_def)
  have act: "activeFlights s = []"
    by (simp add: s_def queueOrder_fields s0_def newZipScheduler_def)
  have q1: "unfulfilledOrders (queueOrder s0 o1) = [\<lparr>order = o1\<rparr>]"
    using d(1) by (simp add: queueOrder_queue s0_def newZipScheduler_def enqueue_Nil)
  have r1: "zipMaxCumulativeRangeM (queueOrder s0 o1) = 10000"
    using queueOrder_fields(1) [of s0 o1] by (simp add: sameConfig_def s0_def newZipScheduler_def)
  have q: "unfulfilledOrders s =
     (if compare o2 o1 < 0 then [\<lparr>order = o2\<rparr>, \<lparr>order = o1\<rparr>] else [\<lparr>order = o1\<rparr>, \<lparr>order = o2\<rparr>])"
    using d(2) q1 r1 by (simp add: s_def queueOrder_queue enqueue_second)
  have lt: "compare o2 o1 < 0 \<longleftrightarrow> time o2 < time o1"
    using p by (simp add: compare_less_iff)
  have ta: "toArray (unfulfilledOrders s) = [o1, o2] \<or> toArray (unfulfilledOrders s) = [o2, o1]"
    using q by (simp add: toArray_def)
  have ne: "unfulfilledOrders s \<noteq> []" using q by simp
  have pf: "planFlight s = (([o1], 6000), s)"
    using planFlight_nearest_of_two [OF cfg(2,3) ta p d] .
  have dq: "dequeueById (unfulfilledOrders s) (orderId o1) = (Some o1, [\<lparr>order = o2\<rparr>])"
  proof (cases "compare o2 o1 < 0")
    case True
    then have "orderId o1 \<noteq> orderId o2" using i lt by auto
    then show ?thesis using q True by (simp add: dequeueById_second_of_two)
  next
    case False
    then show ?thesis using q by (simp add: dequeueById_first_of_two)
  qed
  define f where "f = newFlight 1 [o1] 6000"
  define s2 where "s2 = s\<lparr>unfulfilledOrders := [\<lparr>order = o2\<rparr>],
        logged := logged s @ [OrderDequeued (orderId o1)],
        activeFlights := [\<lparr>returnTime = calculateReturnTime s 1 6000, flight = f\<rparr>]\<rparr>"
  have df: "dispatchFlight s 1 [o1] 6000 = (f, s2)"
    using dq act
    by (simp add: dispatchFlight_def dequeueFlightOrder_def Let_def calculateReturnTime_def
        s2_def f_def)
  have ec: "countByPriority s Emergency \<noteq> 0"
    using ta p by (auto simp: countByPriority_def Let_def)
  have "launchPass 1 1 s = Inl (f, s2)"
    using ne pf df ec by (simp add: launchPass_def isEmpty_def)
  moreover have "launchPass 1 0 s2 = Inr s2" by (simp add: launchPass_def)
  ultimately have "launchLoop 1 1 [] s = ([f], s2)"
    by (subst launchLoop_pass, simp, subst launchLoop_pass, simp)
  moreover have "releaseReturningZips s 1 = s" by (simp add: releaseReturningZips_eq act)
  ultimately have "launchFlights s 1 = ([f], s2)"
    using ne cfg(1) act by (simp add: launchFlights_def Let_def isEmpty_def)
  then show ?thesis
    by (simp add: s_def s0_def f_def s2_def newFlight_fields getUnfulfilledOrders_def toArray_def)
qed

theorem scenario_A_witness:
  "priority (orderAt ''near'' 3000 Emergency 0) = Emergency \<and>
   priority (orderAt ''far'' (- 4000) Emergency 1) = Emergency \<and>
   calculateDistance nest (hospital (orderAt ''near'' 3000 Emergency 0)) = 3000 \<and>
   calculateDistance nest (hospital (orderAt ''far'' (- 4000) Emergency 1)) = 4000 \<and>
   time (orderAt ''near'' 3000 Emergency 0) = 0 \<and> time (orderAt ''far'' (- 4000) Emergency 1) = 1 \<and>
   map orders (fst (launchFlights
      (queueOrder (queueOrder (newZipScheduler Map.empty 1 1 30 10000)
         (orderAt ''near'' 3000 Emergency 0)) (orderAt ''far'' (- 4000) Emergency 1)) 1))
     = [[orderAt ''near'' 3000 Emergency 0]] \<and>
   getUnfulfilledOrders (snd (launchFlights
      (queueOrder (queueOrder (newZipScheduler Map.empty 1 1 30 10000)
         (orderAt ''near'' 3000 Emergency 0)) (orderAt ''far'' (- 4000) Emergency 1)) 1))
     = [orderAt ''far'' (- 4000) Emergency 1]"
  using scenario_A [of "orderAt ''near'' 3000 Emergency 0" "orderAt ''far'' (- 4000) Emergency 1"
      Map.empty 30]
  by (simp add: orderAt_simps calculateDistance_orderAt)

section \<open>C8: return times and the release step\<close>

text \<open>
  Claim C8. After \<open>launchFlights(t)\<close> the active flights are the old ones whose return
  time is not \<open>\<le> t\<close>, followed by one entry for each flight launched, whose return
  time is \<open>launchTime + totalDistance / zipSpeedMps\<close> (a finite number when the speed is
  not 0), the launch time being \<open>t\<close>. The release step frees exactly the entries whose
  return time is \<open>\<le> t\<close>, and it comes first: the call gives the same result from the
  released scheduler. At 30 m/s a flight of 3,000 m launched at 100 returns at 200; it
  is kept by a release at 199 and freed by a release at 200.
\<close>

theorem return_time_and_release:
  "activeFlights (snd (launchFlights s t)) =
     filter (\<lambda>e. \<not> jsLessEq (returnTime e) t) (activeFlights s) @
     map (\<lambda>f. \<lparr>returnTime = calculateReturnTime s (launchTime f) (totalDistance f), flight = f\<rparr>)
       (fst (launchFlights s t)) \<and>
   (\<forall>f \<in> set (fst (launchFlights s t)). launchTime f = t) \<and>
   (zipSpeedMps s \<noteq> 0 \<longrightarrow> calculateReturnTime s l d = Finite (l + d / zipSpeedMps s)) \<and>
   activeFlights (releaseReturningZips s t) =
     filter (\<lambda>e. \<not> jsLessEq (returnTime e) t) (activeFlights s) \<and>
   launchFlights (releaseReturningZips s t) t = launchFlights s t \<and>
   (zipSpeedMps s = 30 \<longrightarrow>
      calculateReturnTime s 100 3000 = Finite 200 \<and>
      (\<forall>e \<in> set (activeFlights s). returnTime e = calculateReturnTime s 100 3000 \<longrightarrow>
         e \<in> set (activeFlights (releaseReturningZips s 199)) \<and>
         e \<notin> set (activeFlights (releaseReturningZips s 200))))"
proof -
  note l = launchFlights_launched [of t s, unfolded launched_def]
  have c: "sameConfig s (releaseReturningZips s t)" by (rule releaseReturningZips_fields)
  have lt: "\<forall>f \<in> set (fst (launchFlights s t)). launchTime f = t" using l by blast
  have "activeFlights (snd (launchFlights s t)) =
     filter (\<lambda>e. \<not> jsLessEq (returnTime e) t) (activeFlights s) @
     map (\<lambda>f. \<lparr>returnTime = calculateReturnTime s t (totalDistance f), flight = f\<rparr>)
       (fst (launchFlights s t))"
    using l calculateReturnTime_sameConfig [OF c] by (simp add: releaseReturningZips_fields)
  moreover have "map (\<lambda>f. \<lparr>returnTime = calculateReturnTime s t (totalDistance f), flight = f\<rparr>)
       (fst (launchFlights s t)) =
     map (\<lambda>f. \<lparr>returnTime = calculateReturnTime s (launchTime f) (totalDistance f), flight = f\<rparr>)
       (fst (launchFlights s t))"
    using lt by simp
  ultimately have a: "activeFlights (snd (launchFlights s t)) =
     filter (\<lambda>e. \<not> jsLessEq (returnTime e) t) (activeFlights s) @
     map (\<lambda>f. \<lparr>returnTime = calculateReturnTime s (launchTime f) (totalDistance f), flight = f\<rparr>)
       (fst (launchFlights s t))" by simp
  have d: "zipSpeedMps s = 30 \<longrightarrow>
      calculateReturnTime s 100 3000 = Finite 200 \<and>
      (\<forall>e \<in> set (activeFlights s). returnTime e = calculateReturnTime s 100 3000 \<longrightarrow>
         e \<in> set (activeFlights (releaseReturningZips s 199)) \<and>
         e \<notin> set (activeFlights (releaseReturningZips s 200)))"
    by (simp add: calculateReturnTime_finite releaseReturningZips_fields)
  show ?thesis
    using a lt d calculateReturnTime_finite [of s l d]
    by (simp add: releaseReturningZips_fields launchFlights_after_release)
qed

theorem return_time_and_release_witness:
  "zipSpeedMps scenarioD = 30 \<and>
   activeFlights scenarioD =
     [\<lparr>returnTime = Finite 200, flight = newFlight 100 [orderAt ''a'' 1500 Emergency 99] 3000\<rparr>] \<and>
   calculateReturnTime scenarioD 100 3000 = Finite 200 \<and>
   activeFlights (releaseReturningZips scenarioD 199) = activeFlights scenarioD \<and>
   activeFlights (releaseReturningZips scenarioD 200) = [] \<and>
   fst (launchFlights scenarioD 199) = [] \<and>
   map orders (fst (launchFlights scenarioD 200)) = [[orderAt ''b'' 1000 Emergency 150]] \<and>
   map returnTime (activeFlights (snd (launchFlights scenarioD 200))) = [Finite (200 + 2000 / 30)]"
  using return_time_and_release [of scenarioD 199 100 3000]
    return_time_and_release [of scenarioD 200 200 2000]
  by (simp add: scenarioD_fields scenarioD_at_199 scenarioD_at_200 newFlight_fields)

section \<open>C9: no flight from a plan the queue does not hold\<close>



section \<open>C10: planFlight does not touch the queue\<close>

text \<open>
  Claim C10. \<open>planFlight\<close> leaves the queue as it found it: the same heap array, hence
  the same contents, order and size (it also leaves the active flights and the count of
  completed orders alone). Over a whole call of \<open>launchFlights\<close> the queue changes only
  by \<open>dequeueById\<close> of the stops of the flights that were launched, in their order.
\<close>

theorem planFlight_leaves_queue:
  "unfulfilledOrders (snd (planFlight s)) = unfulfilledOrders s \<and>
   getUnfulfilledOrders (snd (planFlight s)) = getUnfulfilledOrders s \<and>
   unfulfilledOrdersCount (snd (planFlight s)) = unfulfilledOrdersCount s \<and>
   activeFlights (snd (planFlight s)) = activeFlights s \<and>
   completeOrderCount (snd (planFlight s)) = completeOrderCount s \<and>
   unfulfilledOrders (snd (launchFlights s t)) =
     foldl (\<lambda>q ord. snd (dequeueById q (orderId ord))) (unfulfilledOrders s)
       (concat (map orders (fst (launchFlights s t))))"
proof -
  obtain r s1 where p: "planFlight s = (r, s1)" by (cases "planFlight s")
  have "unfulfilledOrders (snd (launchFlights s t)) =
          dequeueAll (unfulfilledOrders s) (concat (map orders (fst (launchFlights s t))))"
    using launchFlights_launched [of t s] by (simp add: launched_def releaseReturningZips_fields)
  then show ?thesis
    using planFlight_fields [OF p] p
    by (simp add: getUnfulfilledOrders_def unfulfilledOrdersCount_def)
qed

theorem planFlight_leaves_queue_witness:
  "planFlight exampleDetour =
     (([orderAt ''west'' (- 1000) Emergency 0, orderAt ''far west'' (- 2000) Resupply 2], 4000),
      exampleDetour\<lparr>logged := logged exampleDetour @ [OrderCannotBeFulfilled ''east'' 11000 10000]\<rparr>) \<and>
   getUnfulfilledOrders (snd (planFlight exampleDetour)) =
     [orderAt ''west'' (- 1000) Emergency 0, orderAt ''east'' 4500 Emergency 1,
      orderAt ''far west'' (- 2000) Resupply 2] \<and>
   unfulfilledOrdersCount (snd (planFlight exampleDetour)) = 3 \<and>
   unfulfilledOrders (snd (launchFlights scenarioC 0)) =
     snd (dequeueById (unfulfilledOrders scenarioC) ''r1'')"
  using planFlight_leaves_queue [of exampleDetour] planFlight_leaves_queue [of scenarioC 0]
    planFlight_example
  by (simp add: getUnfulfilledOrders_def unfulfilledOrdersCount_def size_queue_def
      exampleDetour_fields scenarioC_launchFlights scenarioC_fields newFlight_fields orderAt_simps
      exampleDetour_def newZipScheduler_def toArray_def dequeueById_def Let_def)

end
